theory Spec2Isabelle
  imports Complex_Main "HOL-Library.Word" "HOL-Library.AList" "HOL-Library.DAList"
begin

section \<open>Chunk reassembly buffer (ImageAssembler)\<close>

text \<open>
  Bytes are 8-bit words. A JavaScript \<open>number[]\<close> that crosses the wire is a list of
  integers; \<open>new Uint8Array(data)\<close> reduces each of them modulo 256 (\<open>word_of_int\<close>)
  and \<open>Array.from\<close> of a byte buffer reads each byte back as a number (\<open>uint\<close>).

  A JavaScript \<open>Map\<close> is an association list: \<open>get\<close> is \<open>map_of\<close>, \<open>set\<close> is
  \<open>AList.update\<close> (an existing key keeps its position, a new one goes last) and \<open>delete\<close>
  is \<open>AList.delete\<close>. The per-entry map \<open>chunks\<close>, whose values are summed by
  \<open>assemble\<close>, is a duplicate-free association list (\<open>DAList\<close>), a \<open>Map\<close> holding
  every key once. Chunk indices and counts are natural numbers, times are
  milliseconds as integers (\<open>Date.now()\<close>).
\<close>

type_synonym byte = "8 word"

record ChunkBuffer =
  nodeId :: string
  chunks :: "(nat, byte list) alist"
  totalChunks :: nat
  receivedChunks :: nat
  createdAt :: int

type_synonym ImageAssembler = "(string \<times> ChunkBuffer) list"

definition TIMEOUT_MS :: int where
  "TIMEOUT_MS = 30000"

definition addChunk :: "ImageAssembler \<Rightarrow> string \<Rightarrow> nat \<Rightarrow> int list \<Rightarrow> nat \<Rightarrow> int \<Rightarrow> ImageAssembler" where
  "addChunk buffers nid chunkIndex data totalChunks0 now =
     (let buffers1 =
            (if map_of buffers nid = None
             then AList.update nid
                    \<lparr>nodeId = nid, chunks = DAList.empty, totalChunks = totalChunks0,
                     receivedChunks = 0, createdAt = now\<rparr> buffers
             else buffers)
      in case map_of buffers1 nid of
           None \<Rightarrow> buffers1
         | Some buffer \<Rightarrow>
             (let uint8Array = map word_of_int data
              in if DAList.lookup (chunks buffer) chunkIndex = None
                 then AList.update nid
                        (buffer\<lparr>chunks := DAList.update chunkIndex uint8Array (chunks buffer),
                                receivedChunks := receivedChunks buffer + 1\<rparr>) buffers1
                 else buffers1))"

definition isComplete :: "ImageAssembler \<Rightarrow> string \<Rightarrow> bool" where
  "isComplete buffers nid =
     (case map_of buffers nid of
        None \<Rightarrow> False
      | Some buffer \<Rightarrow> receivedChunks buffer = totalChunks buffer)"

text \<open>
  \<open>assemble\<close> allocates a zero-filled array of the summed length of all stored chunks and
  copies the chunks of the indices below \<open>totalChunks\<close> into it one after the other.
  \<open>TypedArray.set\<close> throws a \<open>RangeError\<close> when the source does not fit at the offset,
  and the loop returns \<open>null\<close> at the first index without a chunk.
\<close>

datatype fill_result = Filled "byte list" | Missing nat | RangeError

fun fill :: "(nat, byte list) alist \<Rightarrow> nat list \<Rightarrow> byte list \<Rightarrow> nat \<Rightarrow> fill_result" where
  "fill cs [] assembled offset = Filled assembled"
| "fill cs (index # rest) assembled offset =
     (case DAList.lookup cs index of
        None \<Rightarrow> Missing index
      | Some chunk \<Rightarrow>
          if offset + length chunk > length assembled then RangeError
          else fill cs rest
                 (take offset assembled @ chunk @ drop (offset + length chunk) assembled)
                 (offset + length chunk))"

datatype assemble_result = Null | Assembled "byte list" | Thrown

definition totalSize_of :: "(nat, byte list) alist \<Rightarrow> nat" where
  "totalSize_of cs = foldl (\<lambda>acc chunk. acc + length chunk) 0 (map snd (DAList.impl_of cs))"

definition assemble :: "ImageAssembler \<Rightarrow> string \<Rightarrow> assemble_result \<times> ImageAssembler" where
  "assemble buffers nid =
     (case map_of buffers nid of
        None \<Rightarrow> (Null, buffers)
      | Some buffer \<Rightarrow>
          if \<not> isComplete buffers nid then (Null, buffers)
          else (let totalSize = totalSize_of (chunks buffer);
                    assembled = replicate totalSize (0 :: byte)
                in case fill (chunks buffer) [0 ..< totalChunks buffer] assembled 0 of
                     Missing index \<Rightarrow> (Null, buffers)
                   | RangeError \<Rightarrow> (Thrown, buffers)
                   | Filled bytes \<Rightarrow> (Assembled bytes, AList.delete nid buffers)))"

text \<open>The length of the chunk stored at an index, 0 when there is none.\<close>

definition len_at :: "(nat, byte list) alist \<Rightarrow> nat \<Rightarrow> nat" where
  "len_at cs i = (case DAList.lookup cs i of None \<Rightarrow> 0 | Some c \<Rightarrow> length c)"

definition timedOut_entry :: "int \<Rightarrow> string \<times> ChunkBuffer \<Rightarrow> bool" where
  "timedOut_entry now e = (now - createdAt (snd e) > TIMEOUT_MS)"

definition cleanupTimedOut :: "ImageAssembler \<Rightarrow> int \<Rightarrow> string list \<times> ImageAssembler" where
  "cleanupTimedOut buffers now =
     (map fst (filter (timedOut_entry now) buffers),
      filter (\<lambda>e. \<not> timedOut_entry now e) buffers)"

section \<open>Configuration and data model\<close>

text \<open>
  \<open>CONFIG\<close> is read from the environment with \<open>parseInt\<close>; the model takes it as a
  parameter holding natural numbers (the values a well-formed environment gives), with
  the defaults of \<open>config.ts\<close> in \<open>CONFIG_default\<close>.
\<close>

record Config =
  IMAGE_SIZE_THRESHOLD :: nat
  IMAGE_CHUNK_SIZE :: nat
  IMAGE_TIMEOUT_MS :: nat
  IMAGE_ASSEMBLY_TIMEOUT_MS :: nat
  MAX_CONCURRENT_IMAGES :: nat

definition CONFIG_default :: Config where
  "CONFIG_default =
     \<lparr>IMAGE_SIZE_THRESHOLD = 102400, IMAGE_CHUNK_SIZE = 65536, IMAGE_TIMEOUT_MS = 15000,
      IMAGE_ASSEMBLY_TIMEOUT_MS = 30000, MAX_CONCURRENT_IMAGES = 5\<rparr>"

text \<open>
  \<open>Math.ceil(a / b)\<close> on non-negative integers: a division by zero gives \<open>Infinity\<close>,
  and \<open>0 / 0\<close> gives \<open>NaN\<close>.
\<close>

datatype js_count = Num nat | Infinity | NaN

definition ceil_div :: "nat \<Rightarrow> nat \<Rightarrow> js_count" where
  "ceil_div a b =
     (if b = 0 then (if a = 0 then NaN else Infinity) else Num ((a + b - 1) div b))"

text \<open>\<open>xs.slice(start, stop)\<close> for non-negative bounds.\<close>

definition slice :: "'a list \<Rightarrow> nat \<Rightarrow> nat \<Rightarrow> 'a list" where
  "slice xs start stop = take (stop - start) (drop start xs)"

datatype NodeType = FRAME | TEXT | IMAGE | SVG

record ImageInfo =
  url :: string
  data :: "string option"

record ImageSource =
  originalUrl :: string
  resolvedUrl :: string

record ImageChunkRef =
  totalSize :: nat
  ref_totalChunks :: js_count
  chunkSize :: nat
  isStreamed :: bool

record ImageProcessing =
  ip_originalFormat :: string
  ip_convertedFormat :: "string option"
  wasConverted :: bool
  processingError :: "string option"

text \<open>
  The fields of an \<open>IRNode\<close> that the transport layer reads or writes
  (\<open>node_id\<close>, \<open>node_type\<close> and \<open>node_image\<close> are the source's \<open>id\<close>, \<open>type\<close> and
  \<open>image\<close>, \<open>imageBuffer\<close> is its \<open>_imageBuffer\<close>, and \<open>ref_totalChunks\<close>,
  \<open>ip_originalFormat\<close> and \<open>ip_convertedFormat\<close> are the \<open>totalChunks\<close>,
  \<open>originalFormat\<close> and \<open>convertedFormat\<close> of the chunk reference and of
  \<open>imageProcessing\<close>). An absent optional field is \<open>None\<close>. The other fields
  of a node, of \<open>image\<close> and of \<open>imageSource\<close> are carried along unchanged by the
  transport and are left out.
\<close>

record IRNode =
  node_id :: string
  node_type :: NodeType
  node_image :: "ImageInfo option"
  imageSource :: "ImageSource option"
  imageChunkRef :: "ImageChunkRef option"
  imageBuffer :: "byte list option"
  imageData :: "int list option"
  imageProcessing :: "ImageProcessing option"

section \<open>Payload normalizer (ImageProcessor)\<close>

record ProcessingResult =
  success :: bool
  buffer :: "byte list option"
  originalFormat :: "string option"
  convertedFormat :: "string option"
  error :: "string option"

record ProcessingStats =
  totalImages :: nat
  inlineImages :: nat
  streamedImages :: nat
  failedImages :: nat
  totalBytesProcessed :: nat

definition initialStats :: ProcessingStats where
  "initialStats =
     \<lparr>totalImages = 0, inlineImages = 0, streamedImages = 0, failedImages = 0,
      totalBytesProcessed = 0\<rparr>"

text \<open>
  \<open>fetchAndConvert\<close> (network fetch, format detection, transcoding) is the outside
  world: a parameter giving the \<open>ProcessingResult\<close> of a URL. It never throws.
  \<open>processImageForNode\<close> returns its result, the node as it left it and the counters.
\<close>

definition orUnknown :: "string option \<Rightarrow> string" where
  "orUnknown f = (case f of None \<Rightarrow> ''unknown'' | Some x \<Rightarrow> (if x = [] then ''unknown'' else x))"

definition processImageForNode ::
  "(string \<Rightarrow> ProcessingResult) \<Rightarrow> Config \<Rightarrow> ProcessingStats \<Rightarrow> IRNode
     \<Rightarrow> (byte list \<times> bool) option \<times> IRNode \<times> ProcessingStats" where
  "processImageForNode fetchAndConvert cfg st node =
     (case imageSource node of
        None \<Rightarrow> (None, node, st)
      | Some src \<Rightarrow>
          if resolvedUrl src = [] then (None, node, st)
          else
            (let st1 = st\<lparr>totalImages := totalImages st + 1\<rparr>;
                 result = fetchAndConvert (resolvedUrl src)
             in case (if success result then buffer result else None) of
                  None \<Rightarrow>
                    (None,
                     node\<lparr>imageProcessing := Some
                       \<lparr>ip_originalFormat = orUnknown (originalFormat result),
                        ip_convertedFormat = None, wasConverted = False,
                        processingError = error result\<rparr>\<rparr>,
                     st1\<lparr>failedImages := failedImages st1 + 1\<rparr>)
                | Some buf \<Rightarrow>
                    (let node1 = node\<lparr>imageProcessing := Some
                           \<lparr>ip_originalFormat = orUnknown (originalFormat result),
                            ip_convertedFormat = convertedFormat result,
                            wasConverted =
                              (Some (orUnknown (originalFormat result)) \<noteq> convertedFormat result),
                            processingError = None\<rparr>\<rparr>;
                         st2 = st1\<lparr>totalBytesProcessed := totalBytesProcessed st1 + length buf\<rparr>;
                         shouldStream = (length buf \<ge> IMAGE_SIZE_THRESHOLD cfg)
                     in if shouldStream
                        then (Some (buf, shouldStream), node1,
                              st2\<lparr>streamedImages := streamedImages st2 + 1\<rparr>)
                        else (Some (buf, shouldStream), node1,
                              st2\<lparr>inlineImages := inlineImages st2 + 1\<rparr>))))"

text \<open>The counters account for every counted image once.\<close>

definition stats_balanced :: "ProcessingStats \<Rightarrow> bool" where
  "stats_balanced st = (inlineImages st + streamedImages st + failedImages st = totalImages st)"

text \<open>The test \<open>node.imageSource?.resolvedUrl\<close> of \<open>processImageForNode\<close>.\<close>

definition hasResolvedUrl :: "IRNode \<Rightarrow> bool" where
  "hasResolvedUrl node = (case imageSource node of None \<Rightarrow> False | Some src \<Rightarrow> resolvedUrl src \<noteq> [])"

text \<open>A sequence of calls, one per node, threading the counters.\<close>

fun processImages ::
  "(string \<Rightarrow> ProcessingResult) \<Rightarrow> Config \<Rightarrow> ProcessingStats \<Rightarrow> IRNode list \<Rightarrow> ProcessingStats" where
  "processImages fetchAndConvert cfg st [] = st"
| "processImages fetchAndConvert cfg st (node # rest) =
     processImages fetchAndConvert cfg
       (snd (snd (processImageForNode fetchAndConvert cfg st node))) rest"

section \<open>Stream controller (sender)\<close>

datatype stage = processing_images | streaming_images

text \<open>
  The envelopes on the wire, each with its \<open>sequenceNumber\<close> last but for
  \<open>IMAGE_CHUNK\<close>, whose fields are \<open>nodeId\<close>, \<open>chunkIndex\<close>, \<open>totalChunks\<close>,
  \<open>data\<close>, \<open>sequenceNumber\<close> and \<open>timestamp\<close>; \<open>PROGRESS\<close> carries
  \<open>stage\<close>, \<open>current\<close> and \<open>total\<close>; \<open>COMPLETE\<close> carries \<open>totalNodes\<close>,
  \<open>totalImages\<close>, \<open>inlineImages\<close> and \<open>streamedImages\<close>.
\<close>

datatype envelope =
    TOKENS string nat
  | FONTS "string list" nat
  | NODES "IRNode list" nat
  | IMAGE_CHUNK string nat nat "int list" nat int
  | PROGRESS stage nat nat nat
  | ERROR string nat
  | COMPLETE nat nat nat nat nat

record StreamPayload =
  nodes :: "IRNode list"
  fonts :: "string list"
  tokens :: "string option"

text \<open>
  The controller object: its counters, the statistics of its \<open>ImageProcessor\<close>, whether
  the socket is in state \<open>OPEN\<close>, and the messages written to the socket so far.
\<close>

record StreamController =
  sequenceNumber :: nat
  stats :: ProcessingStats
  totalNodes :: nat
  ws_open :: bool
  sent :: "envelope list"

definition newController :: "bool \<Rightarrow> StreamController" where
  "newController is_open =
     \<lparr>sequenceNumber = 0, stats = initialStats, totalNodes = 0, ws_open = is_open, sent = []\<rparr>"

definition send :: "StreamController \<Rightarrow> envelope \<Rightarrow> StreamController" where
  "send ctl message = (if ws_open ctl then ctl\<lparr>sent := sent ctl @ [message]\<rparr> else ctl)"

text \<open>
  \<open>this.send({..., sequenceNumber: this.sequenceNumber++})\<close>: the message is built with
  the current number, the counter goes up, then the message is sent.
\<close>

definition sendNumbered :: "StreamController \<Rightarrow> (nat \<Rightarrow> envelope) \<Rightarrow> StreamController" where
  "sendNumbered ctl mk =
     send (ctl\<lparr>sequenceNumber := sequenceNumber ctl + 1\<rparr>) (mk (sequenceNumber ctl))"

definition sendProgress :: "StreamController \<Rightarrow> stage \<Rightarrow> nat \<Rightarrow> nat \<Rightarrow> StreamController" where
  "sendProgress ctl stg current tot = sendNumbered ctl (PROGRESS stg current tot)"

definition sendComplete :: "StreamController \<Rightarrow> StreamController" where
  "sendComplete ctl =
     sendNumbered ctl
       (COMPLETE (totalNodes ctl) (totalImages (stats ctl)) (inlineImages (stats ctl))
          (streamedImages (stats ctl)))"

definition attachImageSource :: "IRNode \<Rightarrow> IRNode" where
  "attachImageSource node =
     (if node_type node \<noteq> IMAGE then node
      else case node_image node of
             None \<Rightarrow> node
           | Some img \<Rightarrow>
               if url img = [] then node
               else node\<lparr>imageSource := Some \<lparr>originalUrl = url img, resolvedUrl = url img\<rparr>\<rparr>)"

definition attachImageSources :: "IRNode list \<Rightarrow> IRNode list" where
  "attachImageSources ns = map attachImageSource ns"

text \<open>
  The node objects are shared between the array \<open>nodes\<close> and the filtered array
  \<open>imageNodes\<close>, and are changed in place. The model keeps the array of nodes as the
  store and \<open>imageNodes\<close> as the list of positions in it.

  \<open>processOne\<close> is the body of the callback given to \<open>batch.map\<close>. The callbacks of one
  wave run interleaved; each touches its own node and adds to the counters, so the model
  runs them in the order of the batch.
\<close>

definition deleteImageData :: "IRNode \<Rightarrow> IRNode" where
  "deleteImageData node =
     node\<lparr>node_image := map_option (\<lambda>img. img\<lparr>data := None\<rparr>) (node_image node)\<rparr>"

definition applyResult :: "Config \<Rightarrow> (byte list \<times> bool) option \<Rightarrow> IRNode \<Rightarrow> IRNode" where
  "applyResult cfg result node =
     (case result of
        None \<Rightarrow> node
      | Some (buf, shouldStream) \<Rightarrow>
          if shouldStream
          then deleteImageData
                 (node\<lparr>imageChunkRef := Some
                          \<lparr>totalSize = length buf,
                           ref_totalChunks = ceil_div (length buf) (IMAGE_CHUNK_SIZE cfg),
                           chunkSize = IMAGE_CHUNK_SIZE cfg, isStreamed = True\<rparr>,
                        imageBuffer := Some buf\<rparr>)
          else deleteImageData (node\<lparr>imageData := Some (map uint buf)\<rparr>))"

definition processOne ::
  "(string \<Rightarrow> ProcessingResult) \<Rightarrow> Config \<Rightarrow> StreamController \<times> IRNode list \<Rightarrow> nat
     \<Rightarrow> StreamController \<times> IRNode list" where
  "processOne fetchAndConvert cfg s k =
     (case s of (ctl, ns) \<Rightarrow>
        (case processImageForNode fetchAndConvert cfg (stats ctl) (ns ! k) of
           (result, node1, st1) \<Rightarrow>
             (ctl\<lparr>stats := st1\<rparr>, ns[k := applyResult cfg result node1])))"

definition isImageWithSource :: "IRNode \<Rightarrow> bool" where
  "isImageWithSource node = (node_type node = IMAGE \<and> imageSource node \<noteq> None)"

function processWaves ::
  "(string \<Rightarrow> ProcessingResult) \<Rightarrow> Config \<Rightarrow> nat list \<Rightarrow> nat
     \<Rightarrow> StreamController \<times> IRNode list \<Rightarrow> StreamController \<times> IRNode list" where
  "processWaves fetchAndConvert cfg imageNodes i s =
     (if i < length imageNodes
      then (let concurrency = max 1 (MAX_CONCURRENT_IMAGES cfg);
                batch = slice imageNodes i (i + concurrency);
                s1 = foldl (processOne fetchAndConvert cfg) s batch;
                processed = min (i + concurrency) (length imageNodes)
            in processWaves fetchAndConvert cfg imageNodes (i + concurrency)
                 (sendProgress (fst s1) processing_images processed (length imageNodes), snd s1))
      else s)"
  by pat_completeness auto
termination
  by (relation "measure (\<lambda>(f, cfg, imageNodes, i, s). length imageNodes - i)") auto

definition processAllImages ::
  "(string \<Rightarrow> ProcessingResult) \<Rightarrow> Config \<Rightarrow> StreamController \<Rightarrow> IRNode list
     \<Rightarrow> StreamController \<times> IRNode list" where
  "processAllImages fetchAndConvert cfg ctl ns =
     (let imageNodes = filter (\<lambda>k. isImageWithSource (ns ! k)) [0 ..< length ns]
      in if imageNodes = [] then (ctl, ns)
         else processWaves fetchAndConvert cfg imageNodes 0 (ctl, ns))"

declare processWaves.simps [simp del]

text \<open>
  What \<open>processOne\<close> makes of a node (it does not depend on the counters), and what
  \<open>processAllImages\<close> makes of it: only image nodes with a source are processed.
\<close>

definition stepNode :: "(string \<Rightarrow> ProcessingResult) \<Rightarrow> Config \<Rightarrow> IRNode \<Rightarrow> IRNode" where
  "stepNode fetchAndConvert cfg node =
     (case processImageForNode fetchAndConvert cfg initialStats node of
        (result, node1, st1) \<Rightarrow> applyResult cfg result node1)"

definition processedNode :: "(string \<Rightarrow> ProcessingResult) \<Rightarrow> Config \<Rightarrow> IRNode \<Rightarrow> IRNode" where
  "processedNode fetchAndConvert cfg node =
     (if isImageWithSource node then stepNode fetchAndConvert cfg node else node)"

text \<open>
  \<open>cloneForTransport\<close> is a JSON round trip; on the fields of the model it keeps every
  value that is present.
\<close>

definition cloneForTransport :: "IRNode \<Rightarrow> IRNode" where
  "cloneForTransport node = node"

definition BATCH_SIZE :: nat where
  "BATCH_SIZE = 50"

function streamNodesFrom :: "StreamController \<Rightarrow> IRNode list \<Rightarrow> nat \<Rightarrow> StreamController" where
  "streamNodesFrom ctl ns i =
     (if i < length ns
      then streamNodesFrom
             (sendNumbered ctl (NODES (map cloneForTransport (slice ns i (i + BATCH_SIZE)))))
             ns (i + BATCH_SIZE)
      else ctl)"
  by pat_completeness auto
termination
  by (relation "measure (\<lambda>(ctl, ns, i). length ns - i)") (auto simp: BATCH_SIZE_def)

declare streamNodesFrom.simps [simp del]

definition streamNodes :: "StreamController \<Rightarrow> IRNode list \<Rightarrow> StreamController" where
  "streamNodes ctl ns = streamNodesFrom ctl ns 0"

text \<open>
  The data of chunk \<open>i\<close> of a buffer as \<open>sendChunk\<close> cuts it, and the first \<open>k\<close>
  chunk envelopes of an item when the first of them has the number \<open>seq0\<close>.
\<close>

definition chunkData :: "Config \<Rightarrow> byte list \<Rightarrow> nat \<Rightarrow> int list" where
  "chunkData cfg buf i =
     map uint (slice buf (i * IMAGE_CHUNK_SIZE cfg)
                 (min (i * IMAGE_CHUNK_SIZE cfg + IMAGE_CHUNK_SIZE cfg) (length buf)))"

definition chunkEnvelopes ::
  "(nat \<Rightarrow> int) \<Rightarrow> Config \<Rightarrow> string \<Rightarrow> byte list \<Rightarrow> nat \<Rightarrow> nat \<Rightarrow> nat \<Rightarrow> envelope list" where
  "chunkEnvelopes tstamp cfg nid buf total_chunks seq0 k =
     map (\<lambda>i. IMAGE_CHUNK nid i total_chunks (chunkData cfg buf i) (seq0 + i) (tstamp (seq0 + i)))
       [0 ..< k]"

text \<open>
  One pass of the inner loop of \<open>streamImageChunks\<close>. \<open>tstamp n\<close> is the sender's clock
  (\<open>Date.now()\<close>) when the message numbered \<open>n\<close> is built.
\<close>

definition sendChunk ::
  "(nat \<Rightarrow> int) \<Rightarrow> Config \<Rightarrow> string \<Rightarrow> byte list \<Rightarrow> nat \<Rightarrow> StreamController \<Rightarrow> nat
     \<Rightarrow> StreamController" where
  "sendChunk tstamp cfg nid buf total_chunks ctl chunkIndex =
     (let start = chunkIndex * IMAGE_CHUNK_SIZE cfg;
          stop = min (start + IMAGE_CHUNK_SIZE cfg) (length buf);
          chunkBuffer = slice buf start stop
      in sendNumbered ctl
           (\<lambda>n. IMAGE_CHUNK nid chunkIndex total_chunks (map uint chunkBuffer) n (tstamp n)))"

text \<open>
  The body of the outer loop for one streamed node, at position \<open>pos\<close> of
  \<open>streamedNodes\<close>. A node without \<open>_imageBuffer\<close> is skipped. A chunk count of
  \<open>Infinity\<close> makes the inner loop run forever: the result is \<open>None\<close>. The loop
  deletes \<open>_imageBuffer\<close> from the node when its chunks are sent; the nodes are distinct
  objects and nothing reads them after this loop, so the model does not return them.
\<close>

definition streamNodeChunks ::
  "(nat \<Rightarrow> int) \<Rightarrow> Config \<Rightarrow> nat \<Rightarrow> StreamController \<Rightarrow> nat \<times> IRNode \<times> ImageChunkRef
     \<Rightarrow> StreamController option" where
  "streamNodeChunks tstamp cfg n_streamed ctl item =
     (case item of (pos, node, ref) \<Rightarrow>
        (case imageBuffer node of
           None \<Rightarrow> Some ctl
         | Some buf \<Rightarrow>
             (case ref_totalChunks ref of
                Infinity \<Rightarrow> None
              | NaN \<Rightarrow> Some (sendProgress ctl streaming_images (pos + 1) n_streamed)
              | Num total_chunks \<Rightarrow>
                  Some (sendProgress
                          (foldl (sendChunk tstamp cfg (node_id node) buf total_chunks) ctl
                             [0 ..< total_chunks])
                          streaming_images (pos + 1) n_streamed))))"

fun streamItems ::
  "(nat \<Rightarrow> int) \<Rightarrow> Config \<Rightarrow> nat \<Rightarrow> StreamController \<Rightarrow> (nat \<times> IRNode \<times> ImageChunkRef) list
     \<Rightarrow> StreamController option" where
  "streamItems tstamp cfg n_streamed ctl [] = Some ctl"
| "streamItems tstamp cfg n_streamed ctl (item # rest) =
     (case streamNodeChunks tstamp cfg n_streamed ctl item of
        None \<Rightarrow> None
      | Some ctl1 \<Rightarrow> streamItems tstamp cfg n_streamed ctl1 rest)"

definition streamedRef :: "IRNode \<Rightarrow> (IRNode \<times> ImageChunkRef) option" where
  "streamedRef node =
     (case imageChunkRef node of
        None \<Rightarrow> None
      | Some ref \<Rightarrow> if isStreamed ref then Some (node, ref) else None)"

definition streamImageChunks ::
  "(nat \<Rightarrow> int) \<Rightarrow> Config \<Rightarrow> StreamController \<Rightarrow> IRNode list \<Rightarrow> StreamController option" where
  "streamImageChunks tstamp cfg ctl ns =
     (let streamedNodes = List.map_filter streamedRef ns
      in streamItems tstamp cfg (length streamedNodes) ctl
           (zip [0 ..< length streamedNodes] streamedNodes))"

text \<open>
  A session. None of the modelled steps throws, so the \<open>catch\<close> branch (\<open>sendError\<close>)
  is not taken. \<open>beforeImageChunks\<close> is the part of \<open>streamExtractedPage\<close> up to and
  including \<open>await this.streamNodes(nodes)\<close>: it always returns, with the controller and
  the nodes as the chunk loop finds them. \<open>streamExtractedPage\<close> is the whole session;
  \<open>None\<close> is a session that never returns, because its chunk loop does not.
\<close>

definition sendError :: "StreamController \<Rightarrow> string \<Rightarrow> StreamController" where
  "sendError ctl msg = sendNumbered ctl (ERROR msg)"

definition beforeImageChunks ::
  "(string \<Rightarrow> ProcessingResult) \<Rightarrow> Config \<Rightarrow> StreamController \<Rightarrow> StreamPayload
     \<Rightarrow> StreamController \<times> IRNode list" where
  "beforeImageChunks fetchAndConvert cfg ctl payload =
     (let ctl0 = ctl\<lparr>totalNodes := length (nodes payload)\<rparr>;
          ns0 = attachImageSources (nodes payload);
          (ctl1, ns1) = processAllImages fetchAndConvert cfg ctl0 ns0;
          ctl2 = (case tokens payload of
                    None \<Rightarrow> ctl1
                  | Some t \<Rightarrow> sendNumbered ctl1 (TOKENS t));
          ctl3 = (if fonts payload \<noteq> [] then sendNumbered ctl2 (FONTS (fonts payload)) else ctl2)
      in (streamNodes ctl3 ns1, ns1))"

definition streamExtractedPage ::
  "(string \<Rightarrow> ProcessingResult) \<Rightarrow> Config \<Rightarrow> (nat \<Rightarrow> int) \<Rightarrow> StreamController \<Rightarrow> StreamPayload
     \<Rightarrow> StreamController option" where
  "streamExtractedPage fetchAndConvert cfg tstamp ctl payload =
     (case beforeImageChunks fetchAndConvert cfg ctl payload of
        (ctl4, ns1) \<Rightarrow> map_option sendComplete (streamImageChunks tstamp cfg ctl4 ns1))"

section \<open>Stream consumer (receiver)\<close>

text \<open>
  What the consumer has put on the page for an item: the object built by
  \<open>createEnhancedNode\<close> from the item, or a placeholder rectangle. The state of the
  consumer is the assembler, the pending table, the map of created objects and the
  count of created objects; the tables of screenshots and states, the token variables
  and the messages posted to the UI play no part in the dispatch and are left out.
\<close>

datatype SceneNode = Rendered IRNode | Placeholder IRNode

record Consumer =
  imageAssembler :: ImageAssembler
  pendingImageNodes :: "(string \<times> IRNode) list"
  streamCreatedNodes :: "(string \<times> SceneNode) list"
  totalStreamNodesProcessed :: nat

definition STREAM_ASSEMBLY_TIMEOUT_MS :: int where
  "STREAM_ASSEMBLY_TIMEOUT_MS = 10000"

definition resetStreamState :: "Consumer \<Rightarrow> Consumer" where
  "resetStreamState c =
     c\<lparr>pendingImageNodes := [], streamCreatedNodes := [], totalStreamNodesProcessed := 0\<rparr>"

text \<open>
  \<open>createEnhancedNode\<close> builds the page object through the host's rendering interface,
  and returns \<open>null\<close> when that throws. The parameter \<open>renders\<close> says for which items
  the rendering succeeds.
\<close>

definition createEnhancedNode :: "(IRNode \<Rightarrow> bool) \<Rightarrow> IRNode \<Rightarrow> SceneNode option" where
  "createEnhancedNode renders node = (if renders node then Some (Rendered node) else None)"

text \<open>
  Modelled from the spec: \<open>createPlaceholderForFailedImage\<close>, which is called by
  \<open>handleStreamComplete\<close> and not defined in the sources at hand. It materializes a
  placeholder (neutral fill, same geometry) for the item and does not fail.
\<close>

definition createPlaceholderForFailedImage :: "IRNode \<Rightarrow> SceneNode" where
  "createPlaceholderForFailedImage node = Placeholder node"

definition recordCreated :: "Consumer \<Rightarrow> string \<Rightarrow> SceneNode option \<Rightarrow> Consumer" where
  "recordCreated c nid figmaNode =
     (case figmaNode of
        None \<Rightarrow> c
      | Some n \<Rightarrow>
          c\<lparr>streamCreatedNodes := AList.update nid n (streamCreatedNodes c),
            totalStreamNodesProcessed := totalStreamNodesProcessed c + 1\<rparr>)"

definition isStreamedNode :: "IRNode \<Rightarrow> bool" where
  "isStreamedNode node = (case imageChunkRef node of None \<Rightarrow> False | Some ref \<Rightarrow> isStreamed ref)"

text \<open>
  The handlers are \<open>async\<close> functions, and \<open>figma.ui.onmessage\<close> does not wait for the
  handler of one message before the next message is taken: while a handler is suspended
  in an \<open>await\<close> on the host, other handlers run on the same variables. From one
  \<open>await\<close> to the next a handler runs without interruption. For a handler that is
  suspended, the model keeps what is left of it:

  \<^item> \<open>NodesAwait node rest\<close> is \<open>handleStreamNodeBatch\<close> suspended in
    \<open>await createEnhancedNode(node, ...)\<close>, with the items \<open>rest\<close> of its batch still to
    come;
  \<^item> \<open>ImageAwait nodeId node\<close> is \<open>createPendingImageNode(nodeId)\<close> suspended in
    \<open>await createEnhancedNode(node, ...)\<close>;
  \<^item> \<open>CompleteWait startTime\<close> is \<open>handleStreamComplete\<close> suspended in the wait of
    100 ms of its loop.

  A handler gives back the variables as it leaves them and, when it is suspended, what is
  left of it.
\<close>

datatype continuation =
    NodesAwait IRNode "IRNode list"
  | ImageAwait string IRNode
  | CompleteWait int

text \<open>
  The loop of \<open>handleStreamNodeBatch\<close> over the items it has not yet looked at, up to
  its next \<open>await\<close> or to its end: a streamed item is put into the pending table, for
  any other item the handler calls \<open>createEnhancedNode\<close> and waits. When it is resumed,
  the handler records the result and goes on with the loop.
\<close>

fun handleStreamNodeBatch :: "Consumer \<Rightarrow> IRNode list \<Rightarrow> Consumer \<times> continuation option" where
  "handleStreamNodeBatch c [] = (c, None)"
| "handleStreamNodeBatch c (node # rest) =
     (if isStreamedNode node
      then handleStreamNodeBatch
             (c\<lparr>pendingImageNodes := AList.update (node_id node) node (pendingImageNodes c)\<rparr>)
             rest
      else (c, Some (NodesAwait node rest)))"

definition resumeNodeBatch ::
  "(IRNode \<Rightarrow> bool) \<Rightarrow> Consumer \<Rightarrow> IRNode \<Rightarrow> IRNode list \<Rightarrow> Consumer \<times> continuation option" where
  "resumeNodeBatch renders c node rest =
     handleStreamNodeBatch (recordCreated c (node_id node) (createEnhancedNode renders node)) rest"

text \<open>
  \<open>createPendingImageNode\<close> up to its \<open>await\<close>. The item it takes from the pending
  table is an object that stays in the table while the handler waits, so the fields set
  before the \<open>await\<close> are set in the table too. When it is resumed, the handler
  records the result and takes the item out of the table.
\<close>

definition createPendingImageNode :: "Consumer \<Rightarrow> string \<Rightarrow> Consumer \<times> continuation option" where
  "createPendingImageNode c nid =
     (case map_of (pendingImageNodes c) nid of
        None \<Rightarrow> (c, None)
      | Some node \<Rightarrow>
          (case assemble (imageAssembler c) nid of
             (Assembled bytes, asm) \<Rightarrow>
               (let node1 = node\<lparr>imageData := Some (map uint bytes), imageChunkRef := None\<rparr>
                in (c\<lparr>imageAssembler := asm,
                      pendingImageNodes := AList.update nid node1 (pendingImageNodes c)\<rparr>,
                    Some (ImageAwait nid node1)))
           | (Null, asm) \<Rightarrow> (c\<lparr>imageAssembler := asm\<rparr>, None)
           | (Thrown, asm) \<Rightarrow> (c\<lparr>imageAssembler := asm\<rparr>, None)))"

definition resumePendingImageNode ::
  "(IRNode \<Rightarrow> bool) \<Rightarrow> Consumer \<Rightarrow> string \<Rightarrow> IRNode \<Rightarrow> Consumer" where
  "resumePendingImageNode renders c nid node =
     (let c1 = recordCreated c (node_id node) (createEnhancedNode renders node)
      in c1\<lparr>pendingImageNodes := AList.delete nid (pendingImageNodes c1)\<rparr>)"

text \<open>\<open>now\<close> is the consumer's clock when the chunk is handled.\<close>

definition handleImageChunk ::
  "Consumer \<Rightarrow> string \<Rightarrow> nat \<Rightarrow> nat \<Rightarrow> int list \<Rightarrow> int \<Rightarrow> Consumer \<times> continuation option" where
  "handleImageChunk c nid chunkIndex total_chunks chunk_data now =
     (let c1 = c\<lparr>imageAssembler :=
                   addChunk (imageAssembler c) nid chunkIndex chunk_data total_chunks now\<rparr>
      in if isComplete (imageAssembler c1) nid then createPendingImageNode c1 nid else (c1, None))"

text \<open>
  The body shared by the two loops of \<open>handleStreamComplete\<close>: for each id that is
  still pending, a placeholder takes the item's place.
\<close>

definition placeholderFor :: "Consumer \<Rightarrow> string \<Rightarrow> Consumer" where
  "placeholderFor c nid =
     (case map_of (pendingImageNodes c) nid of
        None \<Rightarrow> c
      | Some node \<Rightarrow>
          c\<lparr>streamCreatedNodes :=
              AList.update nid (createPlaceholderForFailedImage node) (streamCreatedNodes c),
            pendingImageNodes := AList.delete nid (pendingImageNodes c),
            totalStreamNodesProcessed := totalStreamNodesProcessed c + 1\<rparr>)"

definition sweep :: "Consumer \<Rightarrow> int \<Rightarrow> Consumer" where
  "sweep c now =
     (case cleanupTimedOut (imageAssembler c) now of
        (timedOut, asm) \<Rightarrow> foldl placeholderFor (c\<lparr>imageAssembler := asm\<rparr>) timedOut)"

definition forcePlaceholders :: "Consumer \<Rightarrow> Consumer" where
  "forcePlaceholders c =
     (if pendingImageNodes c \<noteq> []
      then foldl placeholderFor c (map fst (pendingImageNodes c))
      else c)"

text \<open>
  \<open>handleStreamComplete\<close>. \<open>pollPending\<close> is the test of its loop, with the reading
  \<open>now\<close> of the clock, and what follows the test: the wait of 100 ms when items are
  pending and the budget is not used up, the placeholders for what is still pending
  otherwise. The handler starts with the reading \<open>startTime\<close>; when it is resumed
  after a wait it sweeps the assembler, with the reading \<open>swept\<close> of the clock, and
  comes back to the test.
\<close>

definition pollPending :: "Consumer \<Rightarrow> int \<Rightarrow> int \<Rightarrow> Consumer \<times> continuation option" where
  "pollPending c startTime now =
     (if pendingImageNodes c \<noteq> [] \<and> now - startTime < STREAM_ASSEMBLY_TIMEOUT_MS
      then (c, Some (CompleteWait startTime))
      else (forcePlaceholders c, None))"

definition handleStreamComplete :: "Consumer \<Rightarrow> int \<Rightarrow> int \<Rightarrow> Consumer \<times> continuation option" where
  "handleStreamComplete c startTime now = pollPending c startTime now"

definition resumeComplete :: "Consumer \<Rightarrow> int \<Rightarrow> int \<Rightarrow> int \<Rightarrow> Consumer \<times> continuation option" where
  "resumeComplete c startTime swept now = pollPending (sweep c swept) startTime now"

text \<open>
  The dispatch of one message by \<open>figma.ui.onmessage\<close>, up to the first \<open>await\<close> on
  the host. \<open>t1\<close> and \<open>t2\<close> are the first and the second reading of \<open>Date.now()\<close>
  while the handler runs (no handler takes more than two before it waits or ends). What
  the handlers of \<open>TOKENS\<close> and \<open>FONTS\<close> do after their \<open>await\<close> touches none of the
  variables of the model.
\<close>

definition onmessage :: "Consumer \<Rightarrow> envelope \<Rightarrow> int \<Rightarrow> int \<Rightarrow> Consumer \<times> continuation option" where
  "onmessage c msg t1 t2 =
     (case msg of
        IMAGE_CHUNK nid chunkIndex total_chunks chunk_data n ts \<Rightarrow>
          handleImageChunk c nid chunkIndex total_chunks chunk_data t1
      | TOKENS t n \<Rightarrow> (resetStreamState c, None)
      | FONTS fs n \<Rightarrow> (c, None)
      | NODES ns n \<Rightarrow> handleStreamNodeBatch c ns
      | PROGRESS stg current tot n \<Rightarrow> (c, None)
      | ERROR e n \<Rightarrow> (c, None)
      | COMPLETE tn ti ii si n \<Rightarrow> handleStreamComplete c t1 t2)"

text \<open>A suspended handler is resumed, and runs up to its next \<open>await\<close> or to its end.\<close>

definition resume ::
  "(IRNode \<Rightarrow> bool) \<Rightarrow> Consumer \<Rightarrow> continuation \<Rightarrow> int \<Rightarrow> int \<Rightarrow> Consumer \<times> continuation option" where
  "resume renders c t t1 t2 =
     (case t of
        NodesAwait node rest \<Rightarrow> resumeNodeBatch renders c node rest
      | ImageAwait nid node \<Rightarrow> (resumePendingImageNode renders c nid node, None)
      | CompleteWait startTime \<Rightarrow> resumeComplete c startTime t1 t2)"

text \<open>
  The consumer as the event loop sees it: the variables of the plugin, the handlers that
  are suspended, and the messages that have arrived and are not yet handled. In one turn
  the event loop either hands the oldest message to \<open>onmessage\<close> or resumes one of the
  suspended handlers; the turn lasts until that handler waits or ends. A turn that asks
  for a message when there is none, or for a handler that is not there, does nothing.
  A schedule is a list of turns; nothing is assumed about the order in which the host
  completes what the handlers wait for.
\<close>

record EventLoop =
  globals :: Consumer
  suspended :: "continuation list"
  inbox :: "envelope list"

datatype turn = Deliver int int | Resume nat int int

definition settle :: "EventLoop \<Rightarrow> Consumer \<times> continuation option \<Rightarrow> EventLoop" where
  "settle el r =
     el\<lparr>globals := fst r,
        suspended := suspended el @ (case snd r of None \<Rightarrow> [] | Some t \<Rightarrow> [t])\<rparr>"

fun step :: "(IRNode \<Rightarrow> bool) \<Rightarrow> EventLoop \<Rightarrow> turn \<Rightarrow> EventLoop" where
  "step renders el (Deliver t1 t2) =
     (case inbox el of
        [] \<Rightarrow> el
      | msg # rest \<Rightarrow> settle (el\<lparr>inbox := rest\<rparr>) (onmessage (globals el) msg t1 t2))"
| "step renders el (Resume k t1 t2) =
     (if k < length (suspended el)
      then settle (el\<lparr>suspended := take k (suspended el) @ drop (Suc k) (suspended el)\<rparr>)
             (resume renders (globals el) (suspended el ! k) t1 t2)
      else el)"

definition run :: "(IRNode \<Rightarrow> bool) \<Rightarrow> EventLoop \<Rightarrow> turn list \<Rightarrow> EventLoop" where
  "run renders el turns = foldl (step renders) el turns"

definition newConsumer :: Consumer where
  "newConsumer =
     \<lparr>imageAssembler = [], pendingImageNodes = [], streamCreatedNodes = [],
      totalStreamNodesProcessed = 0\<rparr>"

text \<open>The plugin when the messages \<open>msgs\<close> have arrived and none is handled yet.\<close>

definition startLoop :: "envelope list \<Rightarrow> EventLoop" where
  "startLoop msgs = \<lparr>globals = newConsumer, suspended = [], inbox = msgs\<rparr>"

section \<open>A session from end to end, and an example\<close>

text \<open>
  The example has an image item per URL: the fetch of \<open>''small''\<close> gives one byte,
  that of \<open>''big''\<close> five bytes, every other fetch fails; the threshold is 4 bytes and
  the chunk size 2 bytes. \<open>frameNode\<close> is an item that is no image.
\<close>

definition frameNode :: "string \<Rightarrow> IRNode" where
  "frameNode nid =
     \<lparr>node_id = nid, node_type = FRAME, node_image = None, imageSource = None,
      imageChunkRef = None, imageBuffer = None, imageData = None, imageProcessing = None\<rparr>"

definition imageNode :: "string \<Rightarrow> string \<Rightarrow> IRNode" where
  "imageNode nid u =
     \<lparr>node_id = nid, node_type = IMAGE, node_image = Some \<lparr>url = u, data = None\<rparr>,
      imageSource = None, imageChunkRef = None, imageBuffer = None, imageData = None,
      imageProcessing = None\<rparr>"

definition exampleFetch :: "string \<Rightarrow> ProcessingResult" where
  "exampleFetch u =
     (if u = ''small''
      then \<lparr>success = True, buffer = Some [9], originalFormat = Some ''png'',
            convertedFormat = Some ''png'', error = None\<rparr>
      else if u = ''big''
      then \<lparr>success = True, buffer = Some [1, 2, 3, 4, 5], originalFormat = Some ''png'',
            convertedFormat = Some ''png'', error = None\<rparr>
      else \<lparr>success = False, buffer = None, originalFormat = None, convertedFormat = None,
            error = Some ''HTTP 404: Not Found''\<rparr>)"

definition exampleConfig :: Config where
  "exampleConfig = CONFIG_default\<lparr>IMAGE_SIZE_THRESHOLD := 4, IMAGE_CHUNK_SIZE := 2\<rparr>"

definition exampleClock :: "nat \<Rightarrow> int" where
  "exampleClock n = 1000 + int n"

definition alwaysRenders :: "IRNode \<Rightarrow> bool" where
  "alwaysRenders node = True"

text \<open>
  A session from end to end: the envelopes that the controller sends arrive at the
  consumer in the order sent, and the consumer's event loop takes the turns of a
  schedule.
\<close>

definition endToEnd ::
  "(string \<Rightarrow> ProcessingResult) \<Rightarrow> Config \<Rightarrow> (nat \<Rightarrow> int) \<Rightarrow> (IRNode \<Rightarrow> bool) \<Rightarrow> StreamPayload
     \<Rightarrow> turn list \<Rightarrow> EventLoop option" where
  "endToEnd fetchAndConvert cfg tstamp renders payload turns =
     (case streamExtractedPage fetchAndConvert cfg tstamp (newController True) payload of
        None \<Rightarrow> None
      | Some ctl \<Rightarrow> Some (run renders (startLoop (sent ctl)) turns))"

section \<open>Auxiliary notions for the properties\<close>

text \<open>The \<open>PROGRESS\<close> envelopes of the stage \<open>processing_images\<close>.\<close>

fun isProcessingProgress :: "envelope \<Rightarrow> bool" where
  "isProcessingProgress (PROGRESS processing_images current tot n) = True"
| "isProcessingProgress other = False"

text \<open>
  The envelopes that a session sends after \<open>TOKENS\<close>, and the items carried by the
  \<open>NODES\<close> envelopes of a list of envelopes, in the order sent.
\<close>

fun isLater :: "envelope \<Rightarrow> bool" where
  "isLater (FONTS fs n) = True"
| "isLater (NODES ns n) = True"
| "isLater (IMAGE_CHUNK nid chunkIndex total_chunks chunk_data n ts) = True"
| "isLater (PROGRESS streaming_images current tot n) = True"
| "isLater (COMPLETE tn ti ii si n) = True"
| "isLater other = False"

fun nodesOf :: "envelope list \<Rightarrow> IRNode list" where
  "nodesOf [] = []"
| "nodesOf (NODES ns n # rest) = ns @ nodesOf rest"
| "nodesOf (other # rest) = nodesOf rest"

text \<open>
  The chunk count of the chunk reference that an item carries, if it carries one, is not
  \<open>Infinity\<close>.
\<close>

definition finiteChunkRef :: "IRNode \<Rightarrow> bool" where
  "finiteChunkRef node =
     (case imageChunkRef node of None \<Rightarrow> True | Some ref \<Rightarrow> ref_totalChunks ref \<noteq> Infinity)"

text \<open>The fetch of an image fails entirely: no success, or no buffer.\<close>

definition fetchFails :: "(string \<Rightarrow> ProcessingResult) \<Rightarrow> string \<Rightarrow> bool" where
  "fetchFails fetchAndConvert u =
     (\<not> success (fetchAndConvert u) \<or> buffer (fetchAndConvert u) = None)"

text \<open>Whether an item is in the pending table, and whether a placeholder stands for it.\<close>

definition hasPlaceholder :: "Consumer \<Rightarrow> string \<Rightarrow> bool" where
  "hasPlaceholder c nid =
     (case map_of (streamCreatedNodes c) nid of
        Some (Placeholder node) \<Rightarrow> True
      | _ \<Rightarrow> False)"

definition isPending :: "Consumer \<Rightarrow> string \<Rightarrow> bool" where
  "isPending c nid = (map_of (pendingImageNodes c) nid \<noteq> None)"

text \<open>
  All messages are handled and no handler is suspended: nothing more happens in the
  consumer.
\<close>

definition finished :: "EventLoop \<Rightarrow> bool" where
  "finished el = (inbox el = [] \<and> suspended el = [])"

text \<open>
  Notions for an item \<open>item\<close> that is not streamed. \<open>undeferred\<close>: the item's id is not
  pending, every pending item is stored under its own id, and what is created under the
  item's id, if anything, is the object rendered from the item. \<open>rendered\<close>: the object
  rendered from the item is there, unless its rendering fails. \<open>keeps c c'\<close>: a passage
  from the variables \<open>c\<close> to \<open>c'\<close> that preserves the two.
\<close>

definition undeferred :: "(IRNode \<Rightarrow> bool) \<Rightarrow> IRNode \<Rightarrow> Consumer \<Rightarrow> bool" where
  "undeferred renders item c =
     (\<not> isPending c (node_id item)
      \<and> list_all (\<lambda>(k, v). node_id v = k) (pendingImageNodes c)
      \<and> (map_of (streamCreatedNodes c) (node_id item) = None
         \<or> renders item \<and> map_of (streamCreatedNodes c) (node_id item) = Some (Rendered item)))"

definition rendered :: "(IRNode \<Rightarrow> bool) \<Rightarrow> IRNode \<Rightarrow> Consumer \<Rightarrow> bool" where
  "rendered renders item c =
     (renders item \<longrightarrow> map_of (streamCreatedNodes c) (node_id item) = Some (Rendered item))"

definition keeps :: "(IRNode \<Rightarrow> bool) \<Rightarrow> IRNode \<Rightarrow> Consumer \<Rightarrow> Consumer \<Rightarrow> bool" where
  "keeps renders item c c' =
     (undeferred renders item c \<longrightarrow>
        undeferred renders item c' \<and> (rendered renders item c \<longrightarrow> rendered renders item c'))"

text \<open>
  The items that a suspended handler still has to go through; whether a list of items
  holds the id of \<open>item\<close> only with \<open>item\<close> itself; and whether a list of messages has no
  \<open>TOKENS\<close> message, or none after its first \<open>NODES\<close> message.
\<close>

definition remainingNodes :: "continuation \<Rightarrow> IRNode list" where
  "remainingNodes t =
     (case t of
        NodesAwait node rest \<Rightarrow> node # rest
      | ImageAwait nid node \<Rightarrow> []
      | CompleteWait startTime \<Rightarrow> [])"

definition onlyAs :: "IRNode \<Rightarrow> IRNode list \<Rightarrow> bool" where
  "onlyAs item ns = (\<forall>n \<in> set ns. node_id n = node_id item \<longrightarrow> n = item)"

fun isTokens :: "envelope \<Rightarrow> bool" where
  "isTokens (TOKENS t n) = True"
| "isTokens other = False"

definition noTokens :: "envelope list \<Rightarrow> bool" where
  "noTokens msgs = list_all (\<lambda>m. \<not> isTokens m) msgs"

fun tokensBeforeNodes :: "envelope list \<Rightarrow> bool" where
  "tokensBeforeNodes [] = True"
| "tokensBeforeNodes (NODES ns n # rest) = noTokens rest"
| "tokensBeforeNodes (other # rest) = tokensBeforeNodes rest"

text \<open>
  What holds of the event loop at every turn, for an item that is not streamed and whose
  id no other item has: the item is not deferred; the handlers that wait and the messages
  not yet handled hold its id only with the item itself, and no handler waits to record
  another item under its id; and either the item is still to arrive, or no reset is to
  come and the item is in the hands of a suspended handler or is rendered.
\<close>

definition continuationOk :: "IRNode \<Rightarrow> continuation \<Rightarrow> bool" where
  "continuationOk item t =
     (onlyAs item (remainingNodes t)
      \<and> (case t of ImageAwait nid node \<Rightarrow> node_id node \<noteq> node_id item | _ \<Rightarrow> True))"

definition plainInvariant :: "(IRNode \<Rightarrow> bool) \<Rightarrow> IRNode \<Rightarrow> EventLoop \<Rightarrow> bool" where
  "plainInvariant renders item el =
     (undeferred renders item (globals el)
      \<and> list_all (continuationOk item) (suspended el)
      \<and> onlyAs item (nodesOf (inbox el))
      \<and> tokensBeforeNodes (inbox el)
      \<and> (item \<in> set (nodesOf (inbox el))
         \<or> noTokens (inbox el)
           \<and> ((\<exists>t \<in> set (suspended el). item \<in> set (remainingNodes t))
              \<or> rendered renders item (globals el))))"

text \<open>
  The chunk messages of a list of envelopes handed to \<open>addChunk\<close> in the order of the
  list, as the first line of \<open>handleImageChunk\<close> does; \<open>now n\<close> is the receiver's clock
  when it handles message number \<open>n\<close>.
\<close>

fun deliverChunks :: "ImageAssembler \<Rightarrow> (nat \<Rightarrow> int) \<Rightarrow> envelope list \<Rightarrow> ImageAssembler" where
  "deliverChunks asm now [] = asm"
| "deliverChunks asm now (IMAGE_CHUNK nid chunkIndex total_chunks chunk_data n ts # rest) =
     deliverChunks (addChunk asm nid chunkIndex chunk_data total_chunks (now n)) now rest"
| "deliverChunks asm now (other # rest) = deliverChunks asm now rest"


text \<open>The chunk indices of the \<open>IMAGE_CHUNK\<close> envelopes of an item, in the order sent.\<close>

fun chunkIndicesOf :: "string \<Rightarrow> envelope list \<Rightarrow> nat list" where
  "chunkIndicesOf nid [] = []"
| "chunkIndicesOf nid (IMAGE_CHUNK nid' chunkIndex total_chunks chunk_data n ts # rest) =
     (if nid' = nid then chunkIndex # chunkIndicesOf nid rest else chunkIndicesOf nid rest)"
| "chunkIndicesOf nid (other # rest) = chunkIndicesOf nid rest"

section \<open>Properties of the reassembly buffer\<close>

lemmas dalist_eval = DAList.lookup.rep_eq DAList.update.rep_eq DAList.empty.rep_eq

lemma foldl_add_length:
  "foldl (\<lambda>acc chunk. acc + length chunk) a xs = a + sum_list (map length xs)"
  by (induction xs arbitrary: a) auto

lemma totalSize_of_sum: "totalSize_of cs = sum_list (map (length \<circ> snd) (DAList.impl_of cs))"
  by (simp add: totalSize_of_def foldl_add_length comp_def)

lemma totalSize_of_keys:
  "totalSize_of cs = sum_list (map (len_at cs) (map fst (DAList.impl_of cs)))"
proof -
  have "\<And>p. p \<in> set (DAList.impl_of cs) \<Longrightarrow> len_at cs (fst p) = length (snd p)"
    by (auto simp: len_at_def DAList.lookup.rep_eq)
  then have "map (\<lambda>p. len_at cs (fst p)) (DAList.impl_of cs)
      = map (\<lambda>p. length (snd p)) (DAList.impl_of cs)"
    by (intro map_cong refl)
  then show ?thesis by (simp only: totalSize_of_sum map_map comp_def)
qed

lemma len_at_absent: "i \<notin> fst ` set (DAList.impl_of cs) \<Longrightarrow> len_at cs i = 0"
  by (force simp: len_at_def DAList.lookup.rep_eq split: option.splits dest: map_of_SomeD)

text \<open>The chunks of any duplicate-free list of indices fit into the allocated array.\<close>

lemma in_range_sum_le:
  assumes "distinct is"
  shows "sum_list (map (len_at cs) is) \<le> totalSize_of cs"
proof -
  let ?ks = "map fst (DAList.impl_of cs)"
  have dk: "distinct ?ks" by simp
  have "sum_list (map (len_at cs) is) = sum (len_at cs) (set is)"
    using assms by (simp add: sum_list_distinct_conv_sum_set)
  also have "\<dots> = sum (len_at cs) (set is \<inter> set ?ks)"
    by (rule sum.mono_neutral_right) (auto simp: len_at_absent)
  also have "\<dots> \<le> sum (len_at cs) (set ?ks)"
    by (rule sum_mono2) auto
  also have "\<dots> = sum_list (map (len_at cs) ?ks)"
    using dk by (simp only: sum_list_distinct_conv_sum_set)
  finally show ?thesis by (simp add: totalSize_of_keys)
qed

lemma fill_no_RangeError:
  "offset + sum_list (map (len_at cs) is) \<le> length assembled \<Longrightarrow>
   fill cs is assembled offset \<noteq> RangeError"
proof (induction "is" arbitrary: assembled offset)
  case Nil
  then show ?case by simp
next
  case (Cons i "is")
  show ?case
  proof (cases "DAList.lookup cs i")
    case None
    then show ?thesis by simp
  next
    case (Some c)
    then have "len_at cs i = length c" by (simp add: len_at_def)
    with Cons.prems
    have fit: "offset + length c + sum_list (map (len_at cs) is) \<le> length assembled"
      by simp
    then have "fill cs is (take offset assembled @ c @ drop (offset + length c) assembled)
                 (offset + length c) \<noteq> RangeError"
      by (intro Cons.IH) simp
    with Some fit show ?thesis by simp
  qed
qed

lemma fill_Missing:
  "i \<in> set is \<Longrightarrow> DAList.lookup cs i = None \<Longrightarrow>
   fill cs is assembled offset \<noteq> RangeError \<Longrightarrow>
   \<exists>j. fill cs is assembled offset = Missing j"
proof (induction "is" arbitrary: assembled offset)
  case Nil
  then show ?case by simp
next
  case (Cons k "is")
  then show ?case
    by (cases "DAList.lookup cs k") (auto split: if_splits)
qed


lemma assemble_fits:
  "0 + sum_list (map (len_at cs) [0 ..< n]) \<le> length (replicate (totalSize_of cs) (0 :: byte))"
  using in_range_sum_le [of "[0 ..< n]" cs] by simp

text \<open>The copy into the allocated array never overflows it: \<open>assemble\<close> does not throw.\<close>

lemma assemble_not_Thrown: "fst (assemble asm nid) \<noteq> Thrown"
  using fill_no_RangeError [OF assemble_fits]
  by (auto simp: assemble_def split: option.splits fill_result.splits)

lemma assemble_removes_entry:
  assumes "assemble asm nid = (Assembled bytes, asm')"
  shows "map_of asm' nid = None \<and> assemble asm' nid = (Null, asm')"
proof -
  from assms have "asm' = AList.delete nid asm"
    by (auto simp: assemble_def split: option.splits if_splits fill_result.splits)
  then have "map_of asm' nid = None"
    by (simp add: AList.delete_conv')
  then show ?thesis by (simp add: assemble_def)
qed

lemma assemble_missing_index:
  assumes "map_of asm nid = Some b" and "i < totalChunks b"
      and "DAList.lookup (chunks b) i = None"
  shows "assemble asm nid = (Null, asm)"
proof (cases "isComplete asm nid")
  case False
  with assms show ?thesis by (simp add: assemble_def)
next
  case True
  let ?arr = "replicate (totalSize_of (chunks b)) (0 :: byte)"
  have "fill (chunks b) [0 ..< totalChunks b] ?arr 0 \<noteq> RangeError"
    by (rule fill_no_RangeError [OF assemble_fits])
  moreover have "i \<in> set [0 ..< totalChunks b]" using assms by simp
  ultimately obtain j where "fill (chunks b) [0 ..< totalChunks b] ?arr 0 = Missing j"
    using fill_Missing assms(3) by blast
  with assms True show ?thesis by (simp add: assemble_def)
qed

text \<open>
  Claim C7. \<open>assemble\<close> succeeds once per item: when a call returns bytes, the entry is
  gone from the buffer and the next call for the same id returns \<open>null\<close> and changes
  nothing; and when some chunk index below \<open>totalChunks\<close> has no chunk, \<open>assemble\<close>
  returns \<open>null\<close> and leaves the buffer as it was.
\<close>

theorem assemble_succeeds_once:
  "(assemble asm nid = (Assembled bytes, asm') \<longrightarrow>
      map_of asm' nid = None \<and> assemble asm' nid = (Null, asm'))
   \<and> (map_of asm nid = Some b \<and> i < totalChunks b \<and> DAList.lookup (chunks b) i = None \<longrightarrow>
      assemble asm nid = (Null, asm))"
  using assemble_removes_entry assemble_missing_index by blast

theorem assemble_succeeds_once_witness:
  "assemble [(''img'', \<lparr>nodeId = ''img'',
        chunks = DAList.update 1 [3] (DAList.update 0 [1, 2] DAList.empty),
        totalChunks = 2, receivedChunks = 2, createdAt = 100\<rparr>)] ''img'' = (Assembled [1, 2, 3], [])
   \<and> assemble [] ''img'' = (Null, [])
   \<and> assemble [(''img'', \<lparr>nodeId = ''img'',
        chunks = DAList.update 5 [3] (DAList.update 0 [1, 2] DAList.empty),
        totalChunks = 2, receivedChunks = 2, createdAt = 100\<rparr>)] ''img''
     = (Null, [(''img'', \<lparr>nodeId = ''img'',
        chunks = DAList.update 5 [3] (DAList.update 0 [1, 2] DAList.empty),
        totalChunks = 2, receivedChunks = 2, createdAt = 100\<rparr>)])"
proof -
  let ?full = "\<lparr>nodeId = ''img'',
        chunks = DAList.update 1 [3] (DAList.update 0 [1, 2] DAList.empty),
        totalChunks = 2, receivedChunks = 2, createdAt = 100\<rparr>"
  let ?gap = "\<lparr>nodeId = ''img'',
        chunks = DAList.update 5 [3] (DAList.update 0 [1, 2] DAList.empty),
        totalChunks = 2, receivedChunks = 2, createdAt = 100\<rparr>"
  have first: "assemble [(''img'', ?full)] ''img'' = (Assembled [1, 2, 3], [])"
    by (simp add: assemble_def isComplete_def totalSize_of_def dalist_eval upt_rec)
  have gap: "map_of [(''img'', ?gap)] ''img'' = Some ?gap \<and> 1 < totalChunks ?gap
      \<and> DAList.lookup (chunks ?gap) 1 = None"
    by (simp add: dalist_eval)
  from first gap
    assemble_succeeds_once [of "[(''img'', ?full)]" "''img''" "[1, 2, 3]" "[]" ?gap 1]
    assemble_succeeds_once [of "[(''img'', ?gap)]" "''img''" "[]" "[]" ?gap 1]
  show ?thesis by simp
qed

lemma addChunk_has_chunk:
  "\<exists>b. map_of (addChunk asm nid k d tot t) nid = Some b \<and> DAList.lookup (chunks b) k \<noteq> None"
proof (cases "map_of asm nid")
  case None
  then show ?thesis
    by (simp add: addChunk_def AList.update_conv')
next
  case (Some b)
  then show ?thesis
    by (cases "DAList.lookup (chunks b) k") (simp_all add: addChunk_def AList.update_conv')
qed

lemma addChunk_known_index:
  assumes "map_of asm nid = Some b" and "DAList.lookup (chunks b) k \<noteq> None"
  shows "addChunk asm nid k d tot t = asm"
proof -
  from assms(2) obtain c where "DAList.lookup (chunks b) k = Some c" by auto
  with assms(1) show ?thesis by (simp add: addChunk_def)
qed

lemma addChunk_other_entry:
  "nid' \<noteq> nid \<Longrightarrow> map_of (addChunk asm nid' k' d tot t) nid = map_of asm nid"
proof (cases "map_of asm nid'")
  case None
  assume "nid' \<noteq> nid"
  with None show ?thesis
    by (simp add: addChunk_def AList.update_conv')
next
  case (Some b)
  assume "nid' \<noteq> nid"
  with Some show ?thesis
    by (cases "DAList.lookup (chunks b) k'") (simp_all add: addChunk_def AList.update_conv')
qed

lemma addChunk_keeps_chunk:
  assumes "map_of asm nid = Some b" and "DAList.lookup (chunks b) k \<noteq> None"
  shows "\<exists>b'. map_of (addChunk asm nid' k' d tot t) nid = Some b'
            \<and> DAList.lookup (chunks b') k \<noteq> None"
proof (cases "nid' = nid")
  case False
  with assms show ?thesis by (simp add: addChunk_other_entry)
next
  case True
  show ?thesis
  proof (cases "DAList.lookup (chunks b) k'")
    case None
    with assms True show ?thesis
      by (simp add: addChunk_def AList.update_conv' DAList.lookup_update)
  next
    case (Some c)
    with assms True show ?thesis by (simp add: addChunk_def)
  qed
qed

lemma deliverChunks_keeps_chunk:
  "map_of asm nid = Some b \<Longrightarrow> DAList.lookup (chunks b) k \<noteq> None \<Longrightarrow>
   \<exists>b'. map_of (deliverChunks asm now ms) nid = Some b' \<and> DAList.lookup (chunks b') k \<noteq> None"
proof (induction asm now ms arbitrary: b rule: deliverChunks.induct)
  case (1 asm now)
  then show ?case by simp
next
  case (2 asm now nid' chunkIndex total_chunks chunk_data n ts rest)
  from addChunk_keeps_chunk [OF "2.prems"]
  obtain b' where "map_of (addChunk asm nid' chunkIndex chunk_data total_chunks (now n)) nid = Some b'"
    and "DAList.lookup (chunks b') k \<noteq> None" by blast
  then show ?case using "2.IH" by simp
qed simp_all

lemma deliverChunks_append:
  "deliverChunks asm now (ms @ ms') = deliverChunks (deliverChunks asm now ms) now ms'"
  by (induction asm now ms rule: deliverChunks.induct) simp_all

text \<open>
  Claim C8. A chunk index that is delivered again for the same item, whatever was
  delivered in between, leaves the buffer (received count included) exactly as it was
  after the first delivery, so what \<open>assemble\<close> then returns is what it returns after
  the single delivery.
\<close>

theorem duplicate_chunk_ignored:
  "deliverChunks asm now
     (IMAGE_CHUNK nid k tot d n ts # between @ [IMAGE_CHUNK nid k tot' d' n' ts'])
   = deliverChunks asm now (IMAGE_CHUNK nid k tot d n ts # between)
   \<and> assemble (deliverChunks asm now
        (IMAGE_CHUNK nid k tot d n ts # between @ [IMAGE_CHUNK nid k tot' d' n' ts'])) nid
   = assemble (deliverChunks asm now (IMAGE_CHUNK nid k tot d n ts # between)) nid"
proof -
  let ?first = "addChunk asm nid k d tot (now n)"
  let ?once = "deliverChunks ?first now between"
  obtain b where "map_of ?first nid = Some b" and "DAList.lookup (chunks b) k \<noteq> None"
    using addChunk_has_chunk by blast
  then obtain b' where "map_of ?once nid = Some b'" and "DAList.lookup (chunks b') k \<noteq> None"
    using deliverChunks_keeps_chunk by blast
  then have "addChunk ?once nid k d' tot' (now n') = ?once"
    by (rule addChunk_known_index)
  then have "deliverChunks ?first now (between @ [IMAGE_CHUNK nid k tot' d' n' ts']) = ?once"
    by (simp add: deliverChunks_append)
  then show ?thesis by simp
qed

lemma cleanup_lookup:
  assumes "distinct (map fst asm)" and "map_of asm nid = Some b"
  shows "map_of (filter P asm) nid = (if P (nid, b) then Some b else None)"
  using assms
proof (induction asm)
  case Nil
  then show ?case by simp
next
  case (Cons e asm)
  obtain k v where e: "e = (k, v)" by (cases e)
  show ?case
  proof (cases "k = nid")
    case True
    with Cons.prems e have vb: "v = b" and "nid \<notin> fst ` set asm" by auto
    then have "nid \<notin> fst ` set (filter P asm)" by auto
    then have "map_of (filter P asm) nid = None"
      by (simp add: map_of_eq_None_iff)
    with True e vb show ?thesis by simp
  next
    case False
    with Cons e show ?thesis by simp
  qed
qed

text \<open>
  Claim C9. A sweep at time \<open>now\<close> over a buffer (a \<open>Map\<close>: every id once) evicts
  an entry exactly when its age \<open>now - createdAt\<close> exceeds 30000 ms, whatever its
  received count: the id of such an entry is returned and the entry is gone, the id of
  any other entry is not returned and the entry stays as it was, and only ids of
  entries are returned.
\<close>

theorem cleanupTimedOut_evicts:
  assumes "distinct (map fst asm)" and "map_of asm nid = Some b"
      and "cleanupTimedOut asm now = (timedOut, asm')"
  shows "(if now - createdAt b > 30000
          then nid \<in> set timedOut \<and> map_of asm' nid = None
          else nid \<notin> set timedOut \<and> map_of asm' nid = Some b)
         \<and> set timedOut \<subseteq> fst ` set asm"
proof -
  from assms(3) have t: "timedOut = map fst (filter (timedOut_entry now) asm)"
    and a: "asm' = filter (\<lambda>e. \<not> timedOut_entry now e) asm"
    by (simp_all add: cleanupTimedOut_def)
  have mem: "(nid, b) \<in> set asm" using assms(2) by (rule map_of_SomeD)
  have uniq: "\<And>b'. (nid, b') \<in> set asm \<Longrightarrow> b' = b"
    using assms(1,2) by simp
  have "nid \<in> set timedOut \<longleftrightarrow> timedOut_entry now (nid, b)"
  proof
    assume "nid \<in> set timedOut"
    then obtain b' where "(nid, b') \<in> set asm" and "timedOut_entry now (nid, b')"
      unfolding t by auto
    with uniq show "timedOut_entry now (nid, b)" by blast
  next
    assume "timedOut_entry now (nid, b)"
    with mem have "(nid, b) \<in> set (filter (timedOut_entry now) asm)" by simp
    then show "nid \<in> set timedOut" unfolding t by force
  qed
  moreover have "map_of asm' nid = (if \<not> timedOut_entry now (nid, b) then Some b else None)"
    unfolding a using assms(1,2) by (rule cleanup_lookup)
  moreover have "set timedOut \<subseteq> fst ` set asm"
    unfolding t by auto
  ultimately show ?thesis by (simp add: timedOut_entry_def TIMEOUT_MS_def)
qed

theorem cleanupTimedOut_evicts_witness:
  "cleanupTimedOut [(''img'', \<lparr>nodeId = ''img'', chunks = DAList.update 0 [7] DAList.empty,
        totalChunks = 3, receivedChunks = 1, createdAt = 0\<rparr>)] 30001 = ([''img''], [])
   \<and> cleanupTimedOut [(''img'', \<lparr>nodeId = ''img'', chunks = DAList.update 0 [7] DAList.empty,
        totalChunks = 3, receivedChunks = 1, createdAt = 0\<rparr>)] 30000
      = ([], [(''img'', \<lparr>nodeId = ''img'', chunks = DAList.update 0 [7] DAList.empty,
        totalChunks = 3, receivedChunks = 1, createdAt = 0\<rparr>)])"
proof -
  let ?b = "\<lparr>nodeId = ''img'', chunks = DAList.update 0 [7] DAList.empty,
        totalChunks = 3, receivedChunks = 1, createdAt = 0\<rparr>"
  have late: "cleanupTimedOut [(''img'', ?b)] 30001 = ([''img''], [])"
    by (simp add: cleanupTimedOut_def timedOut_entry_def TIMEOUT_MS_def)
  have edge: "cleanupTimedOut [(''img'', ?b)] 30000 = ([], [(''img'', ?b)])"
    by (simp add: cleanupTimedOut_def timedOut_entry_def TIMEOUT_MS_def)
  have d: "distinct (map fst [(''img'', ?b)])" and m: "map_of [(''img'', ?b)] ''img'' = Some ?b"
    by simp_all
  from cleanupTimedOut_evicts [OF d m late] cleanupTimedOut_evicts [OF d m edge] late edge
  show ?thesis by simp
qed

section \<open>Properties of the payload normalizer\<close>

lemma processImageForNode_success:
  assumes "imageSource node = Some src" and "resolvedUrl src \<noteq> []"
      and "success (fetchAndConvert (resolvedUrl src))"
      and "buffer (fetchAndConvert (resolvedUrl src)) = Some buf"
  shows "fst (processImageForNode fetchAndConvert cfg st node)
           = Some (buf, IMAGE_SIZE_THRESHOLD cfg \<le> length buf)"
  using assms by (simp add: processImageForNode_def Let_def)

lemma processImageForNode_success_stats:
  assumes "imageSource node = Some src" and "resolvedUrl src \<noteq> []"
      and "success (fetchAndConvert (resolvedUrl src))"
      and "buffer (fetchAndConvert (resolvedUrl src)) = Some buf"
  shows "snd (snd (processImageForNode fetchAndConvert cfg st node))
           = (if IMAGE_SIZE_THRESHOLD cfg \<le> length buf
              then st\<lparr>totalImages := totalImages st + 1,
                      totalBytesProcessed := totalBytesProcessed st + length buf,
                      streamedImages := streamedImages st + 1\<rparr>
              else st\<lparr>totalImages := totalImages st + 1,
                      totalBytesProcessed := totalBytesProcessed st + length buf,
                      inlineImages := inlineImages st + 1\<rparr>)"
  using assms by (simp add: processImageForNode_def Let_def)

text \<open>
  Claim C4. For a payload that was fetched and converted, the decision returned by
  \<open>processImageForNode\<close> is "chunked" exactly when the byte length is at least the
  configured threshold; with a threshold of 100000 a payload of 99999 bytes is inline
  and one of 100000 bytes is chunked.
\<close>

theorem threshold_boundary:
  assumes "imageSource node = Some src" and "resolvedUrl src \<noteq> []"
      and "success (fetchAndConvert (resolvedUrl src))"
      and "buffer (fetchAndConvert (resolvedUrl src)) = Some buf"
  shows "fst (processImageForNode fetchAndConvert cfg st node)
           = Some (buf, IMAGE_SIZE_THRESHOLD cfg \<le> length buf)
       \<and> (IMAGE_SIZE_THRESHOLD cfg = 100000 \<longrightarrow>
            (length buf = 99999 \<longrightarrow>
               fst (processImageForNode fetchAndConvert cfg st node) = Some (buf, False))
          \<and> (length buf = 100000 \<longrightarrow>
               fst (processImageForNode fetchAndConvert cfg st node) = Some (buf, True)))"
  using assms processImageForNode_success [of node src fetchAndConvert buf cfg st] by simp

lemma processImageForNode_no_source:
  "\<not> hasResolvedUrl node \<Longrightarrow> processImageForNode fetchAndConvert cfg st node = (None, node, st)"
  by (simp add: processImageForNode_def hasResolvedUrl_def split: option.splits)

lemma processImageForNode_counts:
  assumes "hasResolvedUrl node"
  shows "totalImages (snd (snd (processImageForNode fetchAndConvert cfg st node))) = totalImages st + 1
    \<and> inlineImages (snd (snd (processImageForNode fetchAndConvert cfg st node)))
      + streamedImages (snd (snd (processImageForNode fetchAndConvert cfg st node)))
      + failedImages (snd (snd (processImageForNode fetchAndConvert cfg st node)))
      = inlineImages st + streamedImages st + failedImages st + 1
    \<and> inlineImages st \<le> inlineImages (snd (snd (processImageForNode fetchAndConvert cfg st node)))
    \<and> streamedImages st \<le> streamedImages (snd (snd (processImageForNode fetchAndConvert cfg st node)))
    \<and> failedImages st \<le> failedImages (snd (snd (processImageForNode fetchAndConvert cfg st node)))"
proof -
  from assms obtain src where src: "imageSource node = Some src" "resolvedUrl src \<noteq> []"
    by (auto simp: hasResolvedUrl_def split: option.splits)
  let ?r = "fetchAndConvert (resolvedUrl src)"
  show ?thesis
  proof (cases "if success ?r then buffer ?r else None")
    case None
    with src show ?thesis by (simp add: processImageForNode_def Let_def)
  next
    case (Some buf)
    with src show ?thesis by (simp add: processImageForNode_def Let_def)
  qed
qed

lemma processImageForNode_balanced:
  "stats_balanced st \<Longrightarrow>
   stats_balanced (snd (snd (processImageForNode fetchAndConvert cfg st node)))"
proof (cases "hasResolvedUrl node")
  case True
  assume "stats_balanced st"
  with True processImageForNode_counts [of node fetchAndConvert cfg st]
  show ?thesis by (simp add: stats_balanced_def)
next
  case False
  assume "stats_balanced st"
  with False show ?thesis by (simp add: processImageForNode_no_source)
qed

lemma processImages_balanced:
  "stats_balanced st \<Longrightarrow> stats_balanced (processImages fetchAndConvert cfg st ns)"
  by (induction ns arbitrary: st) (simp_all add: processImageForNode_balanced)

theorem threshold_boundary_witness:
  "fst (processImageForNode
         (\<lambda>u. \<lparr>success = True, buffer = Some (replicate 99999 0), originalFormat = Some ''png'',
                convertedFormat = Some ''png'', error = None\<rparr>)
         (CONFIG_default\<lparr>IMAGE_SIZE_THRESHOLD := 100000\<rparr>) initialStats
         \<lparr>node_id = ''n'', node_type = IMAGE, node_image = None,
          imageSource = Some \<lparr>originalUrl = ''u'', resolvedUrl = ''u''\<rparr>,
          imageChunkRef = None, imageBuffer = None, imageData = None, imageProcessing = None\<rparr>)
     = Some (replicate 99999 0, False)
   \<and> fst (processImageForNode
         (\<lambda>u. \<lparr>success = True, buffer = Some (replicate 100000 0), originalFormat = Some ''png'',
                convertedFormat = Some ''png'', error = None\<rparr>)
         (CONFIG_default\<lparr>IMAGE_SIZE_THRESHOLD := 100000\<rparr>) initialStats
         \<lparr>node_id = ''n'', node_type = IMAGE, node_image = None,
          imageSource = Some \<lparr>originalUrl = ''u'', resolvedUrl = ''u''\<rparr>,
          imageChunkRef = None, imageBuffer = None, imageData = None, imageProcessing = None\<rparr>)
     = Some (replicate 100000 0, True)"
proof -
  let ?node = "\<lparr>node_id = ''n'', node_type = IMAGE, node_image = None,
          imageSource = Some \<lparr>originalUrl = ''u'', resolvedUrl = ''u''\<rparr>,
          imageChunkRef = None, imageBuffer = None, imageData = None, imageProcessing = None\<rparr>"
  let ?src = "\<lparr>originalUrl = ''u'', resolvedUrl = ''u''\<rparr>"
  let ?cfg = "CONFIG_default\<lparr>IMAGE_SIZE_THRESHOLD := 100000\<rparr>"
  let ?small = "\<lambda>u :: string. \<lparr>success = True, buffer = Some (replicate 99999 (0 :: byte)),
      originalFormat = Some ''png'', convertedFormat = Some ''png'', error = None\<rparr>"
  let ?large = "\<lambda>u :: string. \<lparr>success = True, buffer = Some (replicate 100000 (0 :: byte)),
      originalFormat = Some ''png'', convertedFormat = Some ''png'', error = None\<rparr>"
  have src: "imageSource ?node = Some ?src" "resolvedUrl ?src \<noteq> []" by simp_all
  have thr: "IMAGE_SIZE_THRESHOLD ?cfg = 100000" by simp
  have s: "success (?small (resolvedUrl ?src))"
      "buffer (?small (resolvedUrl ?src)) = Some (replicate 99999 0)"
      "length (replicate 99999 (0 :: byte)) = 99999" by simp_all
  have l: "success (?large (resolvedUrl ?src))"
      "buffer (?large (resolvedUrl ?src)) = Some (replicate 100000 0)"
      "length (replicate 100000 (0 :: byte)) = 100000" by simp_all
  from threshold_boundary [of ?node ?src ?small "replicate 99999 0" ?cfg initialStats, OF src s(1,2)]
       threshold_boundary [of ?node ?src ?large "replicate 100000 0" ?cfg initialStats, OF src l(1,2)]
       thr s(3) l(3)
  show ?thesis by blast
qed



section \<open>Properties of the chunk stream\<close>

lemma sendNumbered_open:
  "ws_open ctl \<Longrightarrow>
   sendNumbered ctl mk = ctl\<lparr>sequenceNumber := sequenceNumber ctl + 1,
                              sent := sent ctl @ [mk (sequenceNumber ctl)]\<rparr>"
  by (simp add: sendNumbered_def send_def)

lemma sendChunks_open:
  assumes "ws_open ctl"
  shows "foldl (sendChunk tstamp cfg nid buf total_chunks) ctl [0 ..< k]
     = ctl\<lparr>sequenceNumber := sequenceNumber ctl + k,
           sent := sent ctl @ chunkEnvelopes tstamp cfg nid buf total_chunks (sequenceNumber ctl) k\<rparr>"
proof (induction k)
  case 0
  show ?case by (simp add: chunkEnvelopes_def)
next
  case (Suc k)
  then show ?case using assms
    by (simp add: sendChunk_def sendNumbered_open chunkEnvelopes_def chunkData_def Let_def)
qed

lemma ceil_div_real:
  assumes "0 < b"
  shows "ceil_div a b = Num (nat \<lceil>real a / real b\<rceil>)"
proof -
  define q where "q = (a + b - 1) div b"
  have "q * b \<le> a + b - 1" unfolding q_def by (rule div_times_less_eq_dividend)
  then have "real (q * b) \<le> real (a + b - 1)" by (simp only: of_nat_le_iff)
  then have lo: "real q * real b \<le> real a + real b - 1" using assms by (simp add: of_nat_diff)
  have "a + b - 1 < b + q * b" unfolding q_def using assms by (rule dividend_less_div_times)
  then have "a \<le> q * b" using assms by simp
  then have "real a \<le> real (q * b)" by (simp only: of_nat_le_iff)
  then have hi: "real a \<le> real q * real b" by simp
  have bpos: "0 < real b" using assms by simp
  have "\<lceil>real a / real b\<rceil> = int q"
  proof (rule ceiling_unique)
    have "(real q - 1) * real b < real a" using lo by (simp add: algebra_simps)
    then show "real_of_int (int q) - 1 < real a / real b"
      using bpos by (simp add: pos_less_divide_eq)
    show "real a / real b \<le> real_of_int (int q)"
      using hi bpos by (simp add: pos_divide_le_eq)
  qed
  then have "nat \<lceil>real a / real b\<rceil> = q" by simp
  with assms show ?thesis by (simp add: ceil_div_def q_def)
qed











lemma applyResult_streamed:
  "imageBuffer (applyResult cfg (Some (buf, True)) node0) = Some buf"
  "node_id (applyResult cfg (Some (buf, True)) node0) = node_id node0"
  "imageChunkRef (applyResult cfg (Some (buf, True)) node0)
     = Some \<lparr>totalSize = length buf,
             ref_totalChunks = ceil_div (length buf) (IMAGE_CHUNK_SIZE cfg),
             chunkSize = IMAGE_CHUNK_SIZE cfg, isStreamed = True\<rparr>"
  by (simp_all add: applyResult_def deleteImageData_def)

lemma sendProgress_open:
  "ws_open ctl \<Longrightarrow>
   sendProgress ctl stg current tot
     = ctl\<lparr>sequenceNumber := sequenceNumber ctl + 1,
           sent := sent ctl @ [PROGRESS stg current tot (sequenceNumber ctl)]\<rparr>"
  by (simp add: sendProgress_def sendNumbered_open)

lemma streamNodeChunks_Num:
  assumes "ws_open ctl" and "imageBuffer node = Some buf" and "ref_totalChunks ref = Num N"
  shows "streamNodeChunks tstamp cfg n ctl (pos, node, ref)
     = Some (ctl\<lparr>sequenceNumber := sequenceNumber ctl + N + 1,
                 sent := sent ctl
                   @ chunkEnvelopes tstamp cfg (node_id node) buf N (sequenceNumber ctl) N
                   @ [PROGRESS streaming_images (pos + 1) n (sequenceNumber ctl + N)]\<rparr>)"
  using assms by (simp add: streamNodeChunks_def sendChunks_open sendProgress_open)

lemma chunkIndicesOf_append:
  "chunkIndicesOf nid (ms @ ms') = chunkIndicesOf nid ms @ chunkIndicesOf nid ms'"
  by (induction nid ms rule: chunkIndicesOf.induct) simp_all

lemma chunkIndicesOf_chunkEnvelopes:
  "chunkIndicesOf nid (chunkEnvelopes tstamp cfg nid buf N seq0 k) = [0 ..< k]"
  by (induction k) (simp_all add: chunkEnvelopes_def chunkIndicesOf_append)




section \<open>Properties of the controller's session\<close>

lemma processImageForNode_stats_indep:
  "fst (processImageForNode f cfg st node) = fst (processImageForNode f cfg st' node)
   \<and> fst (snd (processImageForNode f cfg st node)) = fst (snd (processImageForNode f cfg st' node))"
proof (cases "imageSource node")
  case None
  then show ?thesis by (simp add: processImageForNode_def)
next
  case (Some src)
  show ?thesis
  proof (cases "resolvedUrl src = []")
    case True
    with Some show ?thesis by (simp add: processImageForNode_def)
  next
    case False
    show ?thesis
    proof (cases "if success (f (resolvedUrl src)) then buffer (f (resolvedUrl src)) else None")
      case None
      with Some False show ?thesis by (simp add: processImageForNode_def Let_def)
    next
      case (Some buf)
      with \<open>imageSource node = Some src\<close> False show ?thesis
        by (simp add: processImageForNode_def Let_def)
    qed
  qed
qed

lemma processOne_eq:
  "processOne f cfg (ctl, ns) k
     = (ctl\<lparr>stats := snd (snd (processImageForNode f cfg (stats ctl) (ns ! k)))\<rparr>,
        ns[k := stepNode f cfg (ns ! k)])"
proof -
  obtain r n1 st1 where p: "processImageForNode f cfg (stats ctl) (ns ! k) = (r, n1, st1)"
    by (cases "processImageForNode f cfg (stats ctl) (ns ! k)") auto
  obtain r' n1' st1' where p': "processImageForNode f cfg initialStats (ns ! k) = (r', n1', st1')"
    by (cases "processImageForNode f cfg initialStats (ns ! k)") auto
  from processImageForNode_stats_indep [of f cfg "stats ctl" "ns ! k" initialStats] p p'
  have "r = r'" and "n1 = n1'" by simp_all
  with p p' show ?thesis by (simp add: processOne_def stepNode_def)
qed

lemma foldl_processOne:
  assumes "distinct idxs" and "\<forall>k \<in> set idxs. k < length ns"
  shows "foldl (processOne f cfg) (ctl, ns) idxs
     = (ctl\<lparr>stats := processImages f cfg (stats ctl) (map ((!) ns) idxs)\<rparr>,
        map (\<lambda>j. if j \<in> set idxs then stepNode f cfg (ns ! j) else ns ! j) [0 ..< length ns])"
  using assms
proof (induction idxs arbitrary: ctl ns)
  case Nil
  show ?case by (simp add: map_nth)
next
  case (Cons k idxs)
  let ?ctl1 = "ctl\<lparr>stats := snd (snd (processImageForNode f cfg (stats ctl) (ns ! k)))\<rparr>"
  let ?ns1 = "ns[k := stepNode f cfg (ns ! k)]"
  from Cons.prems have k: "k < length ns" "k \<notin> set idxs" and d: "distinct idxs"
    and b: "\<forall>j \<in> set idxs. j < length ?ns1" by auto
  have same: "map ((!) ?ns1) idxs = map ((!) ns) idxs"
  proof (rule map_cong [OF refl])
    fix x assume "x \<in> set idxs"
    with k(2) have "k \<noteq> x" by auto
    then show "?ns1 ! x = ns ! x" by simp
  qed
  have "foldl (processOne f cfg) (ctl, ns) (k # idxs) = foldl (processOne f cfg) (?ctl1, ?ns1) idxs"
    by (simp add: processOne_eq)
  also have "\<dots> = (?ctl1\<lparr>stats := processImages f cfg (stats ?ctl1) (map ((!) ?ns1) idxs)\<rparr>,
        map (\<lambda>j. if j \<in> set idxs then stepNode f cfg (?ns1 ! j) else ?ns1 ! j) [0 ..< length ?ns1])"
    using d b by (rule Cons.IH)
  also have "?ctl1\<lparr>stats := processImages f cfg (stats ?ctl1) (map ((!) ?ns1) idxs)\<rparr>
      = ctl\<lparr>stats := processImages f cfg (stats ctl) (map ((!) ns) (k # idxs))\<rparr>"
    by (simp add: same)
  also have "map (\<lambda>j. if j \<in> set idxs then stepNode f cfg (?ns1 ! j) else ?ns1 ! j) [0 ..< length ?ns1]
      = map (\<lambda>j. if j \<in> set (k # idxs) then stepNode f cfg (ns ! j) else ns ! j) [0 ..< length ns]"
    using k by (auto simp: nth_list_update)
  finally show ?case .
qed

lemma processImages_append:
  "processImages f cfg st (xs @ ys) = processImages f cfg (processImages f cfg st xs) ys"
  by (induction xs arbitrary: st) simp_all

lemma foldl_processOne_wire:
  "sent (fst (foldl (processOne f cfg) s idxs)) = sent (fst s)
   \<and> ws_open (fst (foldl (processOne f cfg) s idxs)) = ws_open (fst s)
   \<and> totalNodes (fst (foldl (processOne f cfg) s idxs)) = totalNodes (fst s)"
proof (induction idxs arbitrary: s)
  case Nil
  show ?case by simp
next
  case (Cons k idxs)
  obtain ctl ns where s: "s = (ctl, ns)" by (cases s)
  show ?case using Cons [of "processOne f cfg s k"] by (simp add: s processOne_eq)
qed

lemma sendNumbered_wire:
  "ws_open (sendNumbered ctl mk) = ws_open ctl
   \<and> totalNodes (sendNumbered ctl mk) = totalNodes ctl
   \<and> stats (sendNumbered ctl mk) = stats ctl
   \<and> sent (sendNumbered ctl mk)
       = (if ws_open ctl then sent ctl @ [mk (sequenceNumber ctl)] else sent ctl)"
  by (simp add: sendNumbered_def send_def)

lemma processWaves_wire:
  "ws_open (fst (processWaves f cfg imageNodes i s)) = ws_open (fst s)
   \<and> totalNodes (fst (processWaves f cfg imageNodes i s)) = totalNodes (fst s)
   \<and> (\<exists>ps. sent (fst (processWaves f cfg imageNodes i s)) = sent (fst s) @ ps
          \<and> list_all isProcessingProgress ps)"
proof (induction f cfg imageNodes i s rule: processWaves.induct)
  case (1 f cfg imageNodes i s)
  show ?case
  proof (cases "i < length imageNodes")
    case False
    then show ?thesis by (simp add: processWaves.simps)
  next
    case True
    define c where "c = max 1 (MAX_CONCURRENT_IMAGES cfg)"
    define s1 where "s1 = foldl (processOne f cfg) s (slice imageNodes i (i + c))"
    define s2 where "s2 = (sendProgress (fst s1) processing_images
                             (min (i + c) (length imageNodes)) (length imageNodes), snd s1)"
    have unfold: "processWaves f cfg imageNodes i s = processWaves f cfg imageNodes (i + c) s2"
      using True by (subst processWaves.simps) (simp add: Let_def c_def s1_def s2_def)
    have IH: "ws_open (fst (processWaves f cfg imageNodes (i + c) s2)) = ws_open (fst s2)
       \<and> totalNodes (fst (processWaves f cfg imageNodes (i + c) s2)) = totalNodes (fst s2)
       \<and> (\<exists>ps. sent (fst (processWaves f cfg imageNodes (i + c) s2)) = sent (fst s2) @ ps
          \<and> list_all isProcessingProgress ps)"
      unfolding s2_def s1_def c_def by (rule "1.IH" [OF True refl refl refl refl])
    have w1: "sent (fst s1) = sent (fst s)" "ws_open (fst s1) = ws_open (fst s)"
        "totalNodes (fst s1) = totalNodes (fst s)"
      unfolding s1_def using foldl_processOne_wire by blast+
    have w2: "ws_open (fst s2) = ws_open (fst s)" "totalNodes (fst s2) = totalNodes (fst s)"
      by (simp_all add: s2_def sendProgress_def sendNumbered_wire w1)
    obtain q where q: "sent (fst s2) = sent (fst s) @ q" "list_all isProcessingProgress q"
    proof (cases "ws_open (fst s)")
      case True
      then have "sent (fst s2) = sent (fst s) @ [PROGRESS processing_images
                    (min (i + c) (length imageNodes)) (length imageNodes) (sequenceNumber (fst s1))]"
        by (simp add: s2_def sendProgress_def sendNumbered_wire w1)
      then show ?thesis using that by simp
    next
      case False
      then have "sent (fst s2) = sent (fst s) @ []"
        by (simp add: s2_def sendProgress_def sendNumbered_wire w1)
      then show ?thesis using that by simp
    qed
    from IH obtain ps where ps: "sent (fst (processWaves f cfg imageNodes (i + c) s2)) = sent (fst s2) @ ps"
        "list_all isProcessingProgress ps" by blast
    have "sent (fst (processWaves f cfg imageNodes i s)) = sent (fst s) @ (q @ ps)"
      by (simp add: unfold ps q)
    moreover have "list_all isProcessingProgress (q @ ps)" using q ps by simp
    ultimately show ?thesis using IH w2 unfold by metis
  qed
qed

lemma sendProgress_wire:
  "stats (sendProgress ctl stg a b) = stats ctl"
  by (simp add: sendProgress_def sendNumbered_wire)

lemma processWaves_nodes:
  "distinct imageNodes \<Longrightarrow> \<forall>k \<in> set imageNodes. k < length (snd s) \<Longrightarrow>
   snd (processWaves f cfg imageNodes i s)
     = map (\<lambda>j. if j \<in> set (drop i imageNodes) then stepNode f cfg (snd s ! j) else snd s ! j)
         [0 ..< length (snd s)]
   \<and> stats (fst (processWaves f cfg imageNodes i s))
     = processImages f cfg (stats (fst s)) (map ((!) (snd s)) (drop i imageNodes))"
proof (induction f cfg imageNodes i s rule: processWaves.induct)
  case (1 f cfg imageNodes i s)
  obtain ctl ns where s: "s = (ctl, ns)" by (cases s)
  show ?case
  proof (cases "i < length imageNodes")
    case False
    then show ?thesis by (simp add: processWaves.simps map_nth)
  next
    case True
    define c where "c = max 1 (MAX_CONCURRENT_IMAGES cfg)"
    define batch where "batch = slice imageNodes i (i + c)"
    define later where "later = drop (i + c) imageNodes"
    define s1 where "s1 = foldl (processOne f cfg) s batch"
    define s2 where "s2 = (sendProgress (fst s1) processing_images
                             (min (i + c) (length imageNodes)) (length imageNodes), snd s1)"
    have unfold: "processWaves f cfg imageNodes i s = processWaves f cfg imageNodes (i + c) s2"
      using True by (subst processWaves.simps) (simp add: Let_def c_def s1_def s2_def batch_def)
    have batch: "batch = take c (drop i imageNodes)"
      by (simp add: batch_def slice_def)
    have split: "drop i imageNodes = batch @ later"
      unfolding batch later_def
      by (metis add.commute append_take_drop_id drop_drop)
    have "distinct (drop i imageNodes)" using "1.prems"(1) by simp
    then have db: "distinct batch" and dl: "distinct later" and disj: "set batch \<inter> set later = {}"
      unfolding split by auto
    have bb: "\<forall>k \<in> set batch. k < length ns"
      using "1.prems"(2) s batch by (auto dest: in_set_takeD in_set_dropD)
    have lb: "\<forall>k \<in> set later. k < length ns"
      using "1.prems"(2) s by (auto simp: later_def dest: in_set_dropD)
    let ?ns1 = "map (\<lambda>j. if j \<in> set batch then stepNode f cfg (ns ! j) else ns ! j) [0 ..< length ns]"
    have s1: "s1 = (ctl\<lparr>stats := processImages f cfg (stats ctl) (map ((!) ns) batch)\<rparr>, ?ns1)"
      unfolding s1_def s using db bb by (rule foldl_processOne)
    have len1: "length (snd s2) = length ns" by (simp add: s2_def s1)
    have nth1: "\<And>j. j < length ns \<Longrightarrow>
        snd s2 ! j = (if j \<in> set batch then stepNode f cfg (ns ! j) else ns ! j)"
      by (simp add: s2_def s1)
    have IH: "snd (processWaves f cfg imageNodes (i + c) s2)
        = map (\<lambda>j. if j \<in> set later then stepNode f cfg (snd s2 ! j) else snd s2 ! j)
            [0 ..< length (snd s2)]
      \<and> stats (fst (processWaves f cfg imageNodes (i + c) s2))
        = processImages f cfg (stats (fst s2)) (map ((!) (snd s2)) later)"
      unfolding later_def s2_def s1_def batch_def c_def
    proof (rule "1.IH" [OF True refl refl refl refl])
      show "distinct imageNodes" by (rule "1.prems"(1))
      show "\<forall>k\<in>set imageNodes.
       k < length (snd (sendProgress
              (fst (foldl (processOne f cfg) s
                     (slice imageNodes i (i + max 1 (MAX_CONCURRENT_IMAGES cfg)))))
              processing_images
              (min (i + max 1 (MAX_CONCURRENT_IMAGES cfg)) (length imageNodes))
              (length imageNodes),
             snd (foldl (processOne f cfg) s
                   (slice imageNodes i (i + max 1 (MAX_CONCURRENT_IMAGES cfg))))))"
        using "1.prems"(2) len1 s
        unfolding s2_def s1_def batch_def c_def by simp
    qed
    have nodes: "map (\<lambda>j. if j \<in> set later then stepNode f cfg (snd s2 ! j) else snd s2 ! j)
            [0 ..< length (snd s2)]
        = map (\<lambda>j. if j \<in> set (drop i imageNodes) then stepNode f cfg (ns ! j) else ns ! j)
            [0 ..< length ns]"
      unfolding len1
    proof (rule map_cong [OF refl])
      fix j assume "j \<in> set [0 ..< length ns]"
      then have j: "j < length ns" by simp
      show "(if j \<in> set later then stepNode f cfg (snd s2 ! j) else snd s2 ! j)
          = (if j \<in> set (drop i imageNodes) then stepNode f cfg (ns ! j) else ns ! j)"
        using disj by (auto simp: nth1 [OF j] split)
    qed
    have same: "map ((!) (snd s2)) later = map ((!) ns) later"
    proof (rule map_cong [OF refl])
      fix j assume jl: "j \<in> set later"
      with lb have "j < length ns" by simp
      moreover from jl disj have "j \<notin> set batch" by auto
      ultimately show "snd s2 ! j = ns ! j" by (simp add: nth1)
    qed
    have st: "stats (fst s2) = processImages f cfg (stats ctl) (map ((!) ns) batch)"
      by (simp add: s2_def s1 sendProgress_wire)
    have "processImages f cfg (stats (fst s2)) (map ((!) (snd s2)) later)
        = processImages f cfg (stats ctl) (map ((!) ns) (drop i imageNodes))"
      by (simp add: same st split processImages_append)
    with IH nodes show ?thesis unfolding unfold by (simp add: s)
  qed
qed

lemma map_nth_filter:
  "map ((!) xs) (filter (\<lambda>k. P (xs ! k)) [0 ..< length xs]) = filter P xs"
proof -
  have "filter P xs = filter P (map ((!) xs) [0 ..< length xs])"
    by (simp only: map_nth)
  also have "\<dots> = map ((!) xs) (filter (P \<circ> (!) xs) [0 ..< length xs])"
    by (simp only: filter_map)
  finally show ?thesis by (simp add: comp_def)
qed

lemma map_by_index: "map (\<lambda>j. g (xs ! j)) [0 ..< length xs] = map g xs"
proof -
  have "map g xs = map g (map ((!) xs) [0 ..< length xs])"
    by (simp only: map_nth)
  then show ?thesis by (simp add: comp_def)
qed

lemma processAllImages_result:
  "snd (processAllImages f cfg ctl ns) = map (processedNode f cfg) ns
   \<and> stats (fst (processAllImages f cfg ctl ns))
       = processImages f cfg (stats ctl) (filter isImageWithSource ns)
   \<and> ws_open (fst (processAllImages f cfg ctl ns)) = ws_open ctl
   \<and> totalNodes (fst (processAllImages f cfg ctl ns)) = totalNodes ctl
   \<and> (\<exists>ps. sent (fst (processAllImages f cfg ctl ns)) = sent ctl @ ps
          \<and> list_all isProcessingProgress ps)"
proof -
  define idx where "idx = filter (\<lambda>k. isImageWithSource (ns ! k)) [0 ..< length ns]"
  have d: "distinct idx" and b: "\<forall>k \<in> set idx. k < length (snd (ctl, ns))"
    by (simp_all add: idx_def)
  have imgs: "map ((!) ns) idx = filter isImageWithSource ns"
    unfolding idx_def by (rule map_nth_filter)
  have nodes: "map (\<lambda>j. if j \<in> set idx then stepNode f cfg (ns ! j) else ns ! j) [0 ..< length ns]
      = map (processedNode f cfg) ns"
  proof -
    have "map (\<lambda>j. if j \<in> set idx then stepNode f cfg (ns ! j) else ns ! j) [0 ..< length ns]
        = map (\<lambda>j. processedNode f cfg (ns ! j)) [0 ..< length ns]"
      by (rule map_cong [OF refl]) (simp add: idx_def processedNode_def)
    then show ?thesis by (simp only: map_by_index)
  qed
  show ?thesis
  proof (cases "idx = []")
    case True
    then have "processAllImages f cfg ctl ns = (ctl, ns)"
      by (simp add: processAllImages_def idx_def)
    moreover from True nodes have "map (processedNode f cfg) ns = ns"
      by (simp add: map_nth)
    moreover from True imgs have "filter isImageWithSource ns = []" by simp
    ultimately show ?thesis by simp
  next
    case False
    then have run: "processAllImages f cfg ctl ns = processWaves f cfg idx 0 (ctl, ns)"
      by (simp add: processAllImages_def idx_def Let_def)
    from processWaves_nodes [OF d b, of f cfg 0, unfolded snd_conv fst_conv drop_0]
      processWaves_wire [of f cfg idx 0 "(ctl, ns)", unfolded snd_conv fst_conv]
    show ?thesis unfolding run by (simp only: imgs nodes simp_thms)
  qed
qed

lemma nodesOf_append: "nodesOf (ms @ ms') = nodesOf ms @ nodesOf ms'"
  by (induction ms rule: nodesOf.induct) simp_all

lemma map_cloneForTransport: "map cloneForTransport xs = xs"
  by (induction xs) (simp_all add: cloneForTransport_def)

lemma streamNodesFrom_wire:
  "ws_open (streamNodesFrom ctl ns i) = ws_open ctl
   \<and> stats (streamNodesFrom ctl ns i) = stats ctl
   \<and> totalNodes (streamNodesFrom ctl ns i) = totalNodes ctl
   \<and> (\<exists>new. sent (streamNodesFrom ctl ns i) = sent ctl @ new
          \<and> list_all isLater new
          \<and> (\<forall>nid. chunkIndicesOf nid new = [])
          \<and> nodesOf new = (if ws_open ctl then drop i ns else []))"
proof (induction ctl ns i rule: streamNodesFrom.induct)
  case (1 ctl ns i)
  show ?case
  proof (cases "i < length ns")
    case False
    then show ?thesis by (simp add: streamNodesFrom.simps)
  next
    case True
    define batch where "batch = map cloneForTransport (slice ns i (i + BATCH_SIZE))"
    define ctl1 where "ctl1 = sendNumbered ctl (NODES batch)"
    have unfold: "streamNodesFrom ctl ns i = streamNodesFrom ctl1 ns (i + BATCH_SIZE)"
      using True by (subst streamNodesFrom.simps) (simp add: ctl1_def batch_def)
    have batch: "batch = take BATCH_SIZE (drop i ns)"
      by (simp add: batch_def slice_def map_cloneForTransport)
    have split: "drop i ns = batch @ drop (i + BATCH_SIZE) ns"
      unfolding batch by (metis add.commute append_take_drop_id drop_drop)
    have w1: "ws_open ctl1 = ws_open ctl" "stats ctl1 = stats ctl" "totalNodes ctl1 = totalNodes ctl"
        "sent ctl1 = (if ws_open ctl then sent ctl @ [NODES batch (sequenceNumber ctl)] else sent ctl)"
      by (simp_all add: ctl1_def sendNumbered_wire)
    from "1.IH" [OF True] obtain new where
      IH: "ws_open (streamNodesFrom ctl1 ns (i + BATCH_SIZE)) = ws_open ctl1"
          "stats (streamNodesFrom ctl1 ns (i + BATCH_SIZE)) = stats ctl1"
          "totalNodes (streamNodesFrom ctl1 ns (i + BATCH_SIZE)) = totalNodes ctl1"
          "sent (streamNodesFrom ctl1 ns (i + BATCH_SIZE)) = sent ctl1 @ new"
          "list_all isLater new" "\<forall>nid. chunkIndicesOf nid new = []"
          "nodesOf new = (if ws_open ctl1 then drop (i + BATCH_SIZE) ns else [])"
      unfolding ctl1_def batch_def by blast
    let ?q = "if ws_open ctl then [NODES batch (sequenceNumber ctl)] else []"
    have "sent (streamNodesFrom ctl ns i) = sent ctl @ (?q @ new)"
      by (simp add: unfold IH w1)
    moreover have "list_all isLater (?q @ new)" using IH by simp
    moreover have "\<forall>nid. chunkIndicesOf nid (?q @ new) = []"
      using IH by (simp add: chunkIndicesOf_append)
    moreover have "nodesOf (?q @ new) = (if ws_open ctl then drop i ns else [])"
      using IH w1 by (simp add: nodesOf_append split)
    ultimately show ?thesis using IH(1,2,3) w1(1,2,3) unfolding unfold by metis
  qed
qed

lemma sendChunks_wire:
  "ws_open (foldl (sendChunk tstamp cfg nid buf N) ctl is) = ws_open ctl
   \<and> stats (foldl (sendChunk tstamp cfg nid buf N) ctl is) = stats ctl
   \<and> totalNodes (foldl (sendChunk tstamp cfg nid buf N) ctl is) = totalNodes ctl
   \<and> (\<exists>new. sent (foldl (sendChunk tstamp cfg nid buf N) ctl is) = sent ctl @ new
          \<and> list_all isLater new \<and> nodesOf new = []
          \<and> (\<forall>nid'. nid' \<noteq> nid \<longrightarrow> chunkIndicesOf nid' new = []))"
proof (induction "is" arbitrary: ctl)
  case Nil
  show ?case by simp
next
  case (Cons i "is")
  define ctl1 where "ctl1 = sendChunk tstamp cfg nid buf N ctl i"
  let ?m = "IMAGE_CHUNK nid i N (chunkData cfg buf i) (sequenceNumber ctl)
              (tstamp (sequenceNumber ctl))"
  have w1: "ws_open ctl1 = ws_open ctl" "stats ctl1 = stats ctl" "totalNodes ctl1 = totalNodes ctl"
      "sent ctl1 = (if ws_open ctl then sent ctl @ [?m] else sent ctl)"
    by (simp_all add: ctl1_def sendChunk_def sendNumbered_wire chunkData_def Let_def)
  from Cons [of ctl1] obtain new where
    IH: "ws_open (foldl (sendChunk tstamp cfg nid buf N) ctl1 is) = ws_open ctl1"
        "stats (foldl (sendChunk tstamp cfg nid buf N) ctl1 is) = stats ctl1"
        "totalNodes (foldl (sendChunk tstamp cfg nid buf N) ctl1 is) = totalNodes ctl1"
        "sent (foldl (sendChunk tstamp cfg nid buf N) ctl1 is) = sent ctl1 @ new"
        "list_all isLater new" "nodesOf new = []"
        "\<forall>nid'. nid' \<noteq> nid \<longrightarrow> chunkIndicesOf nid' new = []"
    by blast
  let ?q = "if ws_open ctl then [?m] else []"
  have "sent (foldl (sendChunk tstamp cfg nid buf N) ctl (i # is)) = sent ctl @ (?q @ new)"
    by (simp add: ctl1_def [symmetric] IH w1)
  moreover have "list_all isLater (?q @ new)" using IH by simp
  moreover have "nodesOf (?q @ new) = []" using IH by (simp add: nodesOf_append)
  moreover have "\<forall>nid'. nid' \<noteq> nid \<longrightarrow> chunkIndicesOf nid' (?q @ new) = []"
    using IH by (simp add: chunkIndicesOf_append)
  ultimately show ?case using IH(1,2,3) w1(1,2,3) by (simp add: ctl1_def [symmetric])
qed

lemma streamNodeChunks_wire:
  assumes "streamNodeChunks tstamp cfg n ctl (pos, node, ref) = Some ctl'"
  shows "ws_open ctl' = ws_open ctl \<and> stats ctl' = stats ctl \<and> totalNodes ctl' = totalNodes ctl
   \<and> (\<exists>new. sent ctl' = sent ctl @ new \<and> list_all isLater new \<and> nodesOf new = []
          \<and> (\<forall>nid'. nid' \<noteq> node_id node \<longrightarrow> chunkIndicesOf nid' new = []))"
proof (cases "imageBuffer node")
  case None
  with assms have "ctl' = ctl" by (simp add: streamNodeChunks_def)
  then show ?thesis by simp
next
  case (Some buf)
  show ?thesis
  proof (cases "ref_totalChunks ref")
    case Infinity
    with Some assms show ?thesis by (simp add: streamNodeChunks_def)
  next
    case NaN
    with Some assms have c: "ctl' = sendProgress ctl streaming_images (pos + 1) n"
      by (simp add: streamNodeChunks_def)
    let ?q = "if ws_open ctl then [PROGRESS streaming_images (pos + 1) n (sequenceNumber ctl)] else []"
    have "sent ctl' = sent ctl @ ?q"
      by (simp add: c sendProgress_def sendNumbered_wire)
    moreover have "list_all isLater ?q" "nodesOf ?q = []" "\<forall>nid'. chunkIndicesOf nid' ?q = []"
      by simp_all
    ultimately show ?thesis
      by (simp add: c sendProgress_def sendNumbered_wire)
  next
    case (Num N)
    define ctl1 where "ctl1 = foldl (sendChunk tstamp cfg (node_id node) buf N) ctl [0 ..< N]"
    from Num Some assms have c: "ctl' = sendProgress ctl1 streaming_images (pos + 1) n"
      by (simp add: streamNodeChunks_def ctl1_def)
    from sendChunks_wire [of tstamp cfg "node_id node" buf N ctl "[0 ..< N]"]
    obtain new where w1: "ws_open ctl1 = ws_open ctl" "stats ctl1 = stats ctl"
        "totalNodes ctl1 = totalNodes ctl" "sent ctl1 = sent ctl @ new"
        "list_all isLater new" "nodesOf new = []"
        "\<forall>nid'. nid' \<noteq> node_id node \<longrightarrow> chunkIndicesOf nid' new = []"
      unfolding ctl1_def by blast
    let ?q = "if ws_open ctl1 then [PROGRESS streaming_images (pos + 1) n (sequenceNumber ctl1)] else []"
    have "sent ctl' = sent ctl @ (new @ ?q)"
      by (simp add: c sendProgress_def sendNumbered_wire w1)
    moreover have "list_all isLater (new @ ?q)" using w1 by simp
    moreover have "nodesOf (new @ ?q) = []" using w1 by (simp add: nodesOf_append)
    moreover have "\<forall>nid'. nid' \<noteq> node_id node \<longrightarrow> chunkIndicesOf nid' (new @ ?q) = []"
      using w1 by (simp add: chunkIndicesOf_append)
    moreover have "ws_open ctl' = ws_open ctl" "stats ctl' = stats ctl" "totalNodes ctl' = totalNodes ctl"
      by (simp_all add: c sendProgress_def sendNumbered_wire w1)
    ultimately show ?thesis by blast
  qed
qed

lemma streamItems_wire:
  "streamItems tstamp cfg n ctl items = Some ctl' \<Longrightarrow>
   ws_open ctl' = ws_open ctl \<and> stats ctl' = stats ctl \<and> totalNodes ctl' = totalNodes ctl
   \<and> (\<exists>new. sent ctl' = sent ctl @ new \<and> list_all isLater new \<and> nodesOf new = []
          \<and> (\<forall>nid'. nid' \<notin> (\<lambda>item. node_id (fst (snd item))) ` set items \<longrightarrow>
                 chunkIndicesOf nid' new = []))"
proof (induction items arbitrary: ctl)
  case Nil
  then show ?case by simp
next
  case (Cons item items)
  obtain pos node ref where item: "item = (pos, node, ref)" by (cases item)
  from Cons.prems obtain ctl1 where
    one: "streamNodeChunks tstamp cfg n ctl (pos, node, ref) = Some ctl1"
    and rest: "streamItems tstamp cfg n ctl1 items = Some ctl'"
    by (cases "streamNodeChunks tstamp cfg n ctl item") (simp_all add: item)
  from streamNodeChunks_wire [OF one] obtain new1 where
    w1: "ws_open ctl1 = ws_open ctl" "stats ctl1 = stats ctl" "totalNodes ctl1 = totalNodes ctl"
        "sent ctl1 = sent ctl @ new1" "list_all isLater new1" "nodesOf new1 = []"
        "\<forall>nid'. nid' \<noteq> node_id node \<longrightarrow> chunkIndicesOf nid' new1 = []"
    by blast
  from Cons.IH [OF rest] obtain new2 where
    w2: "ws_open ctl' = ws_open ctl1" "stats ctl' = stats ctl1" "totalNodes ctl' = totalNodes ctl1"
        "sent ctl' = sent ctl1 @ new2" "list_all isLater new2" "nodesOf new2 = []"
        "\<forall>nid'. nid' \<notin> (\<lambda>item. node_id (fst (snd item))) ` set items \<longrightarrow>
                 chunkIndicesOf nid' new2 = []"
    by blast
  have "sent ctl' = sent ctl @ (new1 @ new2)" by (simp add: w1 w2)
  moreover have "list_all isLater (new1 @ new2)" using w1 w2 by simp
  moreover have "nodesOf (new1 @ new2) = []" using w1 w2 by (simp add: nodesOf_append)
  moreover have "\<forall>nid'. nid' \<notin> (\<lambda>item. node_id (fst (snd item))) ` set (item # items) \<longrightarrow>
                 chunkIndicesOf nid' (new1 @ new2) = []"
    using w1(7) w2(7) by (simp add: chunkIndicesOf_append item)
  moreover have "ws_open ctl' = ws_open ctl" "stats ctl' = stats ctl" "totalNodes ctl' = totalNodes ctl"
    by (simp_all add: w1 w2)
  ultimately show ?case by blast
qed

lemma streamedRef_Some: "streamedRef node = Some (node', ref) \<Longrightarrow> node' = node \<and> isStreamedNode node"
  by (auto simp: streamedRef_def isStreamedNode_def split: option.splits if_splits)

lemma streamImageChunks_wire:
  assumes "streamImageChunks tstamp cfg ctl ns = Some ctl'"
  shows "ws_open ctl' = ws_open ctl \<and> stats ctl' = stats ctl \<and> totalNodes ctl' = totalNodes ctl
   \<and> (\<exists>new. sent ctl' = sent ctl @ new \<and> list_all isLater new \<and> nodesOf new = []
          \<and> (\<forall>nid'. (\<forall>node \<in> set ns. node_id node = nid' \<longrightarrow> \<not> isStreamedNode node) \<longrightarrow>
                 chunkIndicesOf nid' new = []))"
proof -
  define streamedNodes where "streamedNodes = List.map_filter streamedRef ns"
  define items where "items = zip [0 ..< length streamedNodes] streamedNodes"
  from assms have run: "streamItems tstamp cfg (length streamedNodes) ctl items = Some ctl'"
    by (simp add: streamImageChunks_def streamedNodes_def items_def Let_def)
  have ids: "\<And>nid'. (\<forall>node \<in> set ns. node_id node = nid' \<longrightarrow> \<not> isStreamedNode node) \<Longrightarrow>
      nid' \<notin> (\<lambda>item. node_id (fst (snd item))) ` set items"
  proof
    fix nid' assume no: "\<forall>node \<in> set ns. node_id node = nid' \<longrightarrow> \<not> isStreamedNode node"
    assume "nid' \<in> (\<lambda>item. node_id (fst (snd item))) ` set items"
    then obtain pos node ref where "(pos, node, ref) \<in> set items" and nid: "node_id node = nid'"
      by auto
    then have "(node, ref) \<in> set streamedNodes"
      unfolding items_def by (auto dest: set_zip_rightD)
    then obtain x where "x \<in> set ns" and "streamedRef x = Some (node, ref)"
      unfolding streamedNodes_def by (auto simp: map_filter_def)
    with streamedRef_Some have "node \<in> set ns" and "isStreamedNode node" by auto
    with no nid show False by blast
  qed
  from streamItems_wire [OF run] ids show ?thesis by (elim conjE exE) (intro conjI exI, auto)
qed

lemma processingProgress_only:
  "list_all isProcessingProgress ps \<Longrightarrow> nodesOf ps = [] \<and> chunkIndicesOf nid ps = []"
proof (induction ps)
  case Nil
  show ?case by simp
next
  case (Cons e ps)
  then show ?case by (cases e rule: isProcessingProgress.cases) simp_all
qed

lemma beforeImageChunks_trace:
  assumes opn: "ws_open ctl"
  shows "\<exists>ctl4 ps tk hd sq.
           beforeImageChunks f cfg ctl payload
             = (ctl4, map (processedNode f cfg) (attachImageSources (nodes payload)))
         \<and> ws_open ctl4 \<and> totalNodes ctl4 = length (nodes payload)
         \<and> stats ctl4 = processImages f cfg (stats ctl)
                           (filter isImageWithSource (attachImageSources (nodes payload)))
         \<and> sent ctl4 = sent ctl @ ps @ tk @ hd
         \<and> list_all isProcessingProgress ps
         \<and> sent (fst (processAllImages f cfg (ctl\<lparr>totalNodes := length (nodes payload)\<rparr>)
                        (attachImageSources (nodes payload)))) = sent ctl @ ps
         \<and> tk = (case tokens payload of None \<Rightarrow> [] | Some t \<Rightarrow> [TOKENS t sq])
         \<and> list_all isLater hd
         \<and> nodesOf hd = map (processedNode f cfg) (attachImageSources (nodes payload))
         \<and> (\<forall>nid. chunkIndicesOf nid hd = [])"
proof -
  define ctl0 where "ctl0 = ctl\<lparr>totalNodes := length (nodes payload)\<rparr>"
  define ns0 where "ns0 = attachImageSources (nodes payload)"
  define ctl1 where "ctl1 = fst (processAllImages f cfg ctl0 ns0)"
  define ns1 where "ns1 = map (processedNode f cfg) ns0"
  define ctl2 where "ctl2 = (case tokens payload of None \<Rightarrow> ctl1
                              | Some t \<Rightarrow> sendNumbered ctl1 (TOKENS t))"
  define ctl3 where "ctl3 = (if fonts payload \<noteq> [] then sendNumbered ctl2 (FONTS (fonts payload))
                              else ctl2)"
  define ctl4 where "ctl4 = streamNodes ctl3 ns1"
  define S where "S = processImages f cfg (stats ctl) (filter isImageWithSource ns0)"
  from processAllImages_result [of f cfg ctl0 ns0]
  obtain ps where pa: "processAllImages f cfg ctl0 ns0 = (ctl1, ns1)"
      and w1: "stats ctl1 = S" "ws_open ctl1" "totalNodes ctl1 = length (nodes payload)"
        "sent ctl1 = sent ctl @ ps" "list_all isProcessingProgress ps"
    unfolding ctl1_def ns1_def S_def using opn
    by (cases "processAllImages f cfg ctl0 ns0") (auto simp: ctl0_def)
  have hd: "beforeImageChunks f cfg ctl payload = (ctl4, ns1)"
    unfolding beforeImageChunks_def Let_def ctl4_def ctl3_def ctl2_def
    using pa [unfolded ctl0_def ns0_def] by (simp split del: if_split)
  let ?tk = "case tokens payload of None \<Rightarrow> [] | Some t \<Rightarrow> [TOKENS t (sequenceNumber ctl1)]"
  have w2: "stats ctl2 = S" "ws_open ctl2" "totalNodes ctl2 = length (nodes payload)"
      "sent ctl2 = sent ctl1 @ ?tk"
    using w1 by (simp_all add: ctl2_def sendNumbered_wire split: option.splits)
  let ?ft = "if fonts payload \<noteq> [] then [FONTS (fonts payload) (sequenceNumber ctl2)] else []"
  have w3: "stats ctl3 = S" "ws_open ctl3" "totalNodes ctl3 = length (nodes payload)"
      "sent ctl3 = sent ctl2 @ ?ft"
    using w2 by (simp_all add: ctl3_def sendNumbered_wire)
  from streamNodesFrom_wire [of ctl3 ns1 0]
  obtain nb where w4: "stats ctl4 = S" "ws_open ctl4" "totalNodes ctl4 = length (nodes payload)"
      "sent ctl4 = sent ctl3 @ nb" "list_all isLater nb"
      "\<forall>nid. chunkIndicesOf nid nb = []" "nodesOf nb = ns1"
    unfolding ctl4_def streamNodes_def using w3 by auto
  let ?hd = "?ft @ nb"
  have "sent ctl4 = sent ctl @ ps @ ?tk @ ?hd"
    by (simp add: w1 w2 w3 w4)
  moreover have "list_all isLater ?hd" using w4 by simp
  moreover have "nodesOf ?hd = ns1" using w4 by (simp add: nodesOf_append)
  moreover have "\<forall>nid. chunkIndicesOf nid ?hd = []"
    using w4 by (simp add: chunkIndicesOf_append)
  moreover have "sent (fst (processAllImages f cfg (ctl\<lparr>totalNodes := length (nodes payload)\<rparr>)
                        (attachImageSources (nodes payload)))) = sent ctl @ ps"
    using w1(4) unfolding ctl1_def ctl0_def ns0_def .
  ultimately show ?thesis
    using hd w1(5) w4(1,2,3) unfolding ns1_def ns0_def S_def by blast
qed

lemma session_trace:
  assumes run: "streamExtractedPage f cfg tstamp ctl payload = Some ctl'"
      and opn: "ws_open ctl"
  shows "\<exists>ps tk later lt sq sq'.
           sent ctl' = sent ctl @ ps @ tk @ later
         \<and> list_all isProcessingProgress ps
         \<and> sent (fst (processAllImages f cfg (ctl\<lparr>totalNodes := length (nodes payload)\<rparr>)
                        (attachImageSources (nodes payload)))) = sent ctl @ ps
         \<and> tk = (case tokens payload of None \<Rightarrow> [] | Some t \<Rightarrow> [TOKENS t sq])
         \<and> list_all isLater later
         \<and> nodesOf later = map (processedNode f cfg) (attachImageSources (nodes payload))
         \<and> (\<forall>nid. (\<forall>node \<in> set (map (processedNode f cfg) (attachImageSources (nodes payload))).
                      node_id node = nid \<longrightarrow> \<not> isStreamedNode node) \<longrightarrow>
                chunkIndicesOf nid later = [])
         \<and> later = lt @ [COMPLETE (length (nodes payload)) (totalImages (stats ctl'))
                            (inlineImages (stats ctl')) (streamedImages (stats ctl'))
                            sq']
         \<and> stats ctl' = processImages f cfg (stats ctl)
                           (filter isImageWithSource (attachImageSources (nodes payload)))"
proof -
  define ns1 where "ns1 = map (processedNode f cfg) (attachImageSources (nodes payload))"
  define S where "S = processImages f cfg (stats ctl)
                        (filter isImageWithSource (attachImageSources (nodes payload)))"
  from beforeImageChunks_trace [OF opn, of f cfg payload]
  obtain ctl4 ps tk hd sq where hd: "beforeImageChunks f cfg ctl payload = (ctl4, ns1)"
      and w4: "stats ctl4 = S" "ws_open ctl4" "totalNodes ctl4 = length (nodes payload)"
        "sent ctl4 = sent ctl @ ps @ tk @ hd" "list_all isLater hd"
        "\<forall>nid. chunkIndicesOf nid hd = []" "nodesOf hd = ns1"
      and ps: "list_all isProcessingProgress ps"
        "sent (fst (processAllImages f cfg (ctl\<lparr>totalNodes := length (nodes payload)\<rparr>)
                        (attachImageSources (nodes payload)))) = sent ctl @ ps"
        "tk = (case tokens payload of None \<Rightarrow> [] | Some t \<Rightarrow> [TOKENS t sq])"
    unfolding ns1_def S_def by blast
  from run have chunks: "map_option sendComplete (streamImageChunks tstamp cfg ctl4 ns1) = Some ctl'"
    by (simp add: streamExtractedPage_def hd)
  then obtain ctl5 where c5: "streamImageChunks tstamp cfg ctl4 ns1 = Some ctl5"
    and c': "ctl' = sendComplete ctl5"
    by (cases "streamImageChunks tstamp cfg ctl4 ns1") auto
  from streamImageChunks_wire [OF c5]
  obtain ch where w5: "stats ctl5 = S" "ws_open ctl5" "totalNodes ctl5 = length (nodes payload)"
      "sent ctl5 = sent ctl4 @ ch" "list_all isLater ch" "nodesOf ch = []"
      "\<forall>nid. (\<forall>node \<in> set ns1. node_id node = nid \<longrightarrow> \<not> isStreamedNode node) \<longrightarrow>
                 chunkIndicesOf nid ch = []"
    using w4 by auto
  let ?done = "COMPLETE (length (nodes payload)) (totalImages S) (inlineImages S)
                 (streamedImages S) (sequenceNumber ctl5)"
  have w6: "stats ctl' = S" "sent ctl' = sent ctl5 @ [?done]"
    using w5 by (simp_all add: c' sendComplete_def sendNumbered_wire)
  let ?later = "hd @ ch @ [?done]"
  have "sent ctl' = sent ctl @ ps @ tk @ ?later"
    by (simp add: w4 w5 w6)
  moreover have "list_all isLater ?later" using w4 w5 by simp
  moreover have "nodesOf ?later = ns1" using w4 w5 by (simp add: nodesOf_append)
  moreover have "\<forall>nid. (\<forall>node \<in> set ns1. node_id node = nid \<longrightarrow> \<not> isStreamedNode node) \<longrightarrow>
                chunkIndicesOf nid ?later = []"
    using w4 w5 by (simp add: chunkIndicesOf_append)
  moreover have "?later = (hd @ ch) @ [COMPLETE (length (nodes payload)) (totalImages (stats ctl'))
                            (inlineImages (stats ctl')) (streamedImages (stats ctl'))
                            (sequenceNumber ctl5)]"
    by (simp add: w6)
  ultimately show ?thesis
    using ps w6(1) unfolding ns1_def S_def by blast
qed

lemma processWaves_first_progress:
  assumes "i < length imageNodes" and "ws_open (fst s)"
  shows "\<exists>cur tot n rest. sent (fst (processWaves f cfg imageNodes i s))
            = sent (fst s) @ PROGRESS processing_images cur tot n # rest"
proof -
  define c where "c = max 1 (MAX_CONCURRENT_IMAGES cfg)"
  define s1 where "s1 = foldl (processOne f cfg) s (slice imageNodes i (i + c))"
  define s2 where "s2 = (sendProgress (fst s1) processing_images
                           (min (i + c) (length imageNodes)) (length imageNodes), snd s1)"
  have unfold: "processWaves f cfg imageNodes i s = processWaves f cfg imageNodes (i + c) s2"
    using assms(1) by (subst processWaves.simps) (simp add: Let_def c_def s1_def s2_def)
  have w1: "sent (fst s1) = sent (fst s)" "ws_open (fst s1) = ws_open (fst s)"
    unfolding s1_def using foldl_processOne_wire by blast+
  have "sent (fst s2) = sent (fst s) @ [PROGRESS processing_images
                    (min (i + c) (length imageNodes)) (length imageNodes) (sequenceNumber (fst s1))]"
    using assms(2) by (simp add: s2_def sendProgress_def sendNumbered_wire w1)
  moreover from processWaves_wire [of f cfg imageNodes "i + c" s2]
  obtain ps where "sent (fst (processWaves f cfg imageNodes (i + c) s2)) = sent (fst s2) @ ps"
    by blast
  ultimately show ?thesis unfolding unfold by simp
qed

lemma processAllImages_first_progress:
  assumes "ws_open ctl"
  shows "if filter isImageWithSource ns = []
         then sent (fst (processAllImages f cfg ctl ns)) = sent ctl
         else (\<exists>cur tot n rest. sent (fst (processAllImages f cfg ctl ns))
                 = sent ctl @ PROGRESS processing_images cur tot n # rest)"
proof -
  define idx where "idx = filter (\<lambda>k. isImageWithSource (ns ! k)) [0 ..< length ns]"
  have imgs: "map ((!) ns) idx = filter isImageWithSource ns"
    unfolding idx_def by (rule map_nth_filter)
  show ?thesis
  proof (cases "idx = []")
    case True
    then have "processAllImages f cfg ctl ns = (ctl, ns)"
      by (simp add: processAllImages_def idx_def)
    moreover from True imgs have "filter isImageWithSource ns = []" by simp
    ultimately show ?thesis by simp
  next
    case False
    then have run: "processAllImages f cfg ctl ns = processWaves f cfg idx 0 (ctl, ns)"
      by (simp add: processAllImages_def idx_def Let_def)
    from False imgs have ne: "filter isImageWithSource ns \<noteq> []" by auto
    from False have "0 < length idx" by simp
    from processWaves_first_progress [OF this, of "(ctl, ns)" f cfg] assms ne
    show ?thesis unfolding run by simp
  qed
qed

lemma session_steps:
  assumes "processAllImages f cfg (ctl\<lparr>totalNodes := length (nodes payload)\<rparr>)
             (attachImageSources (nodes payload)) = (ctl1, ns1)"
      and "(case tokens payload of None \<Rightarrow> ctl1 | Some t \<Rightarrow> sendNumbered ctl1 (TOKENS t)) = ctl2"
      and "(if fonts payload \<noteq> [] then sendNumbered ctl2 (FONTS (fonts payload)) else ctl2) = ctl3"
      and "streamNodes ctl3 ns1 = ctl4"
      and "streamImageChunks tstamp cfg ctl4 ns1 = Some ctl5"
  shows "streamExtractedPage f cfg tstamp ctl payload = Some (sendComplete ctl5)"
  unfolding streamExtractedPage_def beforeImageChunks_def Let_def assms(1) prod.case assms(2)
    assms(3) assms(4) assms(5)
  by simp

lemma example_inline_session:
  "streamExtractedPage exampleFetch exampleConfig exampleClock (newController True)
        \<lparr>nodes = [imageNode ''pic'' ''small''], fonts = [], tokens = Some ''tok''\<rparr>
   = Some \<lparr>sequenceNumber = 4,
       stats = \<lparr>totalImages = 1, inlineImages = 1, streamedImages = 0, failedImages = 0,
                 totalBytesProcessed = 1\<rparr>,
       totalNodes = 1, ws_open = True,
       sent = [PROGRESS processing_images 1 1 0, TOKENS ''tok'' 1,
               NODES [(imageNode ''pic'' ''small'')
                 \<lparr>imageSource := Some \<lparr>originalUrl = ''small'', resolvedUrl = ''small''\<rparr>,
                   imageData := Some [9],
                   imageProcessing := Some \<lparr>ip_originalFormat = ''png'',
                      ip_convertedFormat = Some ''png'', wasConverted = False,
                      processingError = None\<rparr>\<rparr>] 2,
               COMPLETE 1 1 1 0 3]\<rparr>"
proof -
  let ?p = "\<lparr>nodes = [imageNode ''pic'' ''small''], fonts = [], tokens = Some ''tok''\<rparr>"
  let ?st = "\<lparr>totalImages = 1, inlineImages = 1, streamedImages = 0, failedImages = 0,
                 totalBytesProcessed = 1\<rparr>"
  let ?n = "(imageNode ''pic'' ''small'')
                 \<lparr>imageSource := Some \<lparr>originalUrl = ''small'', resolvedUrl = ''small''\<rparr>,
                   imageData := Some [9],
                   imageProcessing := Some \<lparr>ip_originalFormat = ''png'',
                      ip_convertedFormat = Some ''png'', wasConverted = False,
                      processingError = None\<rparr>\<rparr>"
  let ?c1 = "\<lparr>sequenceNumber = 1, stats = ?st, totalNodes = 1, ws_open = True,
              sent = [PROGRESS processing_images 1 1 0]\<rparr>"
  let ?c2 = "\<lparr>sequenceNumber = 2, stats = ?st, totalNodes = 1, ws_open = True,
              sent = [PROGRESS processing_images 1 1 0, TOKENS ''tok'' 1]\<rparr>"
  let ?c4 = "\<lparr>sequenceNumber = 3, stats = ?st, totalNodes = 1, ws_open = True,
              sent = [PROGRESS processing_images 1 1 0, TOKENS ''tok'' 1, NODES [?n] 2]\<rparr>"
  have a: "processAllImages exampleFetch exampleConfig
             (newController True\<lparr>totalNodes := length (nodes ?p)\<rparr>)
             (attachImageSources (nodes ?p)) = (?c1, [?n])"
    by (simp add: attachImageSources_def attachImageSource_def processAllImages_def
        processWaves.simps processOne_def processImageForNode_def applyResult_def
        deleteImageData_def isImageWithSource_def orUnknown_def sendProgress_def
        sendNumbered_def send_def slice_def newController_def initialStats_def Let_def
        exampleFetch_def exampleConfig_def imageNode_def CONFIG_default_def)
  have b: "(case tokens ?p of None \<Rightarrow> ?c1 | Some t \<Rightarrow> sendNumbered ?c1 (TOKENS t)) = ?c2"
    by (simp add: sendNumbered_def send_def)
  have c: "(if fonts ?p \<noteq> [] then sendNumbered ?c2 (FONTS (fonts ?p)) else ?c2) = ?c2"
    by simp
  have d: "streamNodes ?c2 [?n] = ?c4"
    by (simp add: streamNodes_def streamNodesFrom.simps BATCH_SIZE_def cloneForTransport_def
        sendNumbered_def send_def slice_def)
  have e: "streamImageChunks exampleClock exampleConfig ?c4 [?n] = Some ?c4"
    by (simp add: streamImageChunks_def streamedRef_def List.map_filter_def imageNode_def)
  show ?thesis
    unfolding session_steps [OF a b c d e]
    by (simp add: sendComplete_def sendNumbered_def send_def)
qed

lemma node_id_processImageForNode:
  "node_id (fst (snd (processImageForNode f cfg st node))) = node_id node"
proof (cases "imageSource node")
  case None
  then show ?thesis by (simp add: processImageForNode_def)
next
  case (Some src)
  show ?thesis
  proof (cases "resolvedUrl src = []")
    case True
    with Some show ?thesis by (simp add: processImageForNode_def)
  next
    case False
    show ?thesis
    proof (cases "if success (f (resolvedUrl src)) then buffer (f (resolvedUrl src)) else None")
      case None
      with Some False show ?thesis by (simp add: processImageForNode_def Let_def)
    next
      case (Some buf)
      with \<open>imageSource node = Some src\<close> False show ?thesis
        by (simp add: processImageForNode_def Let_def)
    qed
  qed
qed

lemma node_id_applyResult: "node_id (applyResult cfg r node) = node_id node"
  by (cases r) (auto simp: applyResult_def deleteImageData_def)

lemma node_id_stepNode: "node_id (stepNode f cfg node) = node_id node"
proof -
  obtain r n1 st1 where p: "processImageForNode f cfg initialStats node = (r, n1, st1)"
    by (cases "processImageForNode f cfg initialStats node") auto
  with node_id_processImageForNode [of f cfg initialStats node] have "node_id n1 = node_id node"
    by simp
  with p show ?thesis by (simp add: stepNode_def node_id_applyResult)
qed

lemma node_id_attachImageSource: "node_id (attachImageSource node) = node_id node"
  by (simp add: attachImageSource_def split: option.splits)

lemma node_id_processed:
  "node_id (processedNode f cfg (attachImageSource node)) = node_id node"
  by (simp add: processedNode_def node_id_stepNode node_id_attachImageSource)

lemma streamNodeChunks_returns:
  assumes "imageBuffer node \<noteq> None \<longrightarrow> ref_totalChunks ref \<noteq> Infinity"
  shows "\<exists>ctl'. streamNodeChunks tstamp cfg n ctl (pos, node, ref) = Some ctl'"
proof (cases "imageBuffer node")
  case None
  then show ?thesis by (simp add: streamNodeChunks_def)
next
  case (Some buf)
  with assms show ?thesis
    by (cases "ref_totalChunks ref") (simp_all add: streamNodeChunks_def)
qed

lemma streamItems_returns:
  assumes "\<forall>item \<in> set items. ref_totalChunks (snd (snd item)) \<noteq> Infinity"
  shows "\<exists>ctl'. streamItems tstamp cfg n ctl items = Some ctl'"
  using assms
proof (induction items arbitrary: ctl)
  case Nil
  show ?case by simp
next
  case (Cons item items)
  obtain pos node ref where item: "item = (pos, node, ref)" by (cases item)
  with Cons.prems have "ref_totalChunks ref \<noteq> Infinity" by simp
  then obtain ctl1 where one: "streamNodeChunks tstamp cfg n ctl (pos, node, ref) = Some ctl1"
    using streamNodeChunks_returns [of node ref tstamp cfg n ctl pos] by blast
  from Cons.prems have "\<forall>item \<in> set items. ref_totalChunks (snd (snd item)) \<noteq> Infinity" by simp
  from Cons.IH [OF this, of ctl1] one show ?case by (simp add: item)
qed

lemma streamItems_append:
  "streamItems tstamp cfg n ctl (xs @ ys)
     = (case streamItems tstamp cfg n ctl xs of
          None \<Rightarrow> None
        | Some ctl1 \<Rightarrow> streamItems tstamp cfg n ctl1 ys)"
  by (induction xs arbitrary: ctl) (simp_all split: option.splits)

lemma streamedRef_finite:
  assumes "list_all finiteChunkRef ns"
  shows "\<forall>x \<in> set (List.map_filter streamedRef ns). ref_totalChunks (snd x) \<noteq> Infinity"
proof
  fix x assume "x \<in> set (List.map_filter streamedRef ns)"
  then obtain node where n: "node \<in> set ns" and s: "streamedRef node = Some x"
    by (auto simp: map_filter_def)
  from n assms have "finiteChunkRef node" by (simp add: list_all_iff)
  with s show "ref_totalChunks (snd x) \<noteq> Infinity"
    by (auto simp: streamedRef_def finiteChunkRef_def split: option.splits if_splits)
qed

lemma streamImageChunks_returns:
  assumes "list_all finiteChunkRef ns"
  shows "\<exists>ctl'. streamImageChunks tstamp cfg ctl ns = Some ctl'"
proof -
  define S where "S = List.map_filter streamedRef ns"
  have "\<forall>item \<in> set (zip [0 ..< length S] S). ref_totalChunks (snd (snd item)) \<noteq> Infinity"
  proof
    fix item assume "item \<in> set (zip [0 ..< length S] S)"
    then have "snd item \<in> set S"
      using set_zip_rightD [of "fst item" "snd item" "[0 ..< length S]" S] by simp
    with streamedRef_finite [OF assms] show "ref_totalChunks (snd (snd item)) \<noteq> Infinity"
      by (simp add: S_def)
  qed
  from streamItems_returns [OF this] show ?thesis
    by (simp add: streamImageChunks_def S_def Let_def)
qed

lemma imageChunkRef_processImageForNode:
  "imageChunkRef (fst (snd (processImageForNode f cfg st node))) = imageChunkRef node"
proof (cases "imageSource node")
  case None
  then show ?thesis by (simp add: processImageForNode_def)
next
  case (Some src)
  show ?thesis
  proof (cases "resolvedUrl src = []")
    case True
    with Some show ?thesis by (simp add: processImageForNode_def)
  next
    case False
    show ?thesis
    proof (cases "if success (f (resolvedUrl src)) then buffer (f (resolvedUrl src)) else None")
      case None
      with Some False show ?thesis by (simp add: processImageForNode_def Let_def)
    next
      case (Some buf)
      with \<open>imageSource node = Some src\<close> False show ?thesis
        by (simp add: processImageForNode_def Let_def)
    qed
  qed
qed

lemma finiteChunkRef_applyResult:
  assumes "0 < IMAGE_CHUNK_SIZE cfg" and "finiteChunkRef node"
  shows "finiteChunkRef (applyResult cfg r node)"
proof (cases r)
  case None
  with assms show ?thesis by (simp add: applyResult_def)
next
  case (Some p)
  obtain buf s where p: "p = (buf, s)" by (cases p)
  show ?thesis
    using assms Some p
    by (cases s) (simp_all add: applyResult_def deleteImageData_def finiteChunkRef_def ceil_div_def)
qed

lemma finiteChunkRef_processed:
  assumes "0 < IMAGE_CHUNK_SIZE cfg" and "finiteChunkRef node"
  shows "finiteChunkRef (processedNode f cfg (attachImageSource node))"
proof -
  let ?n = "attachImageSource node"
  have a: "finiteChunkRef ?n"
    using assms(2) by (simp add: attachImageSource_def finiteChunkRef_def split: option.splits)
  obtain r n1 st1 where p: "processImageForNode f cfg initialStats ?n = (r, n1, st1)"
    by (cases "processImageForNode f cfg initialStats ?n") auto
  with imageChunkRef_processImageForNode [of f cfg initialStats ?n]
  have "imageChunkRef n1 = imageChunkRef ?n" by simp
  with a have "finiteChunkRef n1" by (simp add: finiteChunkRef_def)
  with assms(1) have "finiteChunkRef (applyResult cfg r n1)" by (rule finiteChunkRef_applyResult)
  with a p show ?thesis by (simp add: processedNode_def stepNode_def)
qed

lemma session_returns:
  assumes "0 < IMAGE_CHUNK_SIZE cfg" and "list_all finiteChunkRef (nodes payload)"
      and "ws_open ctl"
  shows "\<exists>ctl'. streamExtractedPage f cfg tstamp ctl payload = Some ctl'"
proof -
  let ?ns1 = "map (processedNode f cfg) (attachImageSources (nodes payload))"
  from beforeImageChunks_trace [OF assms(3), of f cfg payload]
  obtain ctl4 where hd: "beforeImageChunks f cfg ctl payload = (ctl4, ?ns1)" by blast
  have "list_all finiteChunkRef ?ns1"
    using assms(1,2) by (simp add: attachImageSources_def list_all_iff finiteChunkRef_processed)
  from streamImageChunks_returns [OF this, of tstamp cfg ctl4] show ?thesis
    by (auto simp: streamExtractedPage_def hd)
qed

lemma streamItems_at:
  assumes fin: "\<forall>item \<in> set (I1 @ I2). ref_totalChunks (snd (snd item)) \<noteq> Infinity"
      and opn: "ws_open ctl"
      and buf: "imageBuffer node = Some buf" and num: "ref_totalChunks ref = Num N"
      and ids: "node_id node \<notin> (\<lambda>item. node_id (fst (snd item))) ` set (I1 @ I2)"
  shows "\<exists>ctl' before after seq0.
           streamItems tstamp cfg n ctl (I1 @ (pos, node, ref) # I2) = Some ctl'
         \<and> ws_open ctl' \<and> stats ctl' = stats ctl \<and> totalNodes ctl' = totalNodes ctl
         \<and> sent ctl' = sent ctl @ before
               @ chunkEnvelopes tstamp cfg (node_id node) buf N seq0 N
               @ [PROGRESS streaming_images (pos + 1) n (seq0 + N)] @ after
         \<and> list_all isLater before \<and> list_all isLater after
         \<and> nodesOf before = [] \<and> nodesOf after = []
         \<and> chunkIndicesOf (node_id node) before = []
         \<and> chunkIndicesOf (node_id node) after = []"
proof -
  from fin have f1: "\<forall>item \<in> set I1. ref_totalChunks (snd (snd item)) \<noteq> Infinity"
    and f2: "\<forall>item \<in> set I2. ref_totalChunks (snd (snd item)) \<noteq> Infinity" by auto
  from ids have i1: "node_id node \<notin> (\<lambda>item. node_id (fst (snd item))) ` set I1"
    and i2: "node_id node \<notin> (\<lambda>item. node_id (fst (snd item))) ` set I2" by auto
  from streamItems_returns [OF f1] obtain ctlA where
    a: "streamItems tstamp cfg n ctl I1 = Some ctlA" by blast
  from streamItems_wire [OF a] i1 obtain new1 where
    wa: "ws_open ctlA = ws_open ctl" "stats ctlA = stats ctl" "totalNodes ctlA = totalNodes ctl"
        "sent ctlA = sent ctl @ new1" "list_all isLater new1" "nodesOf new1 = []"
        "chunkIndicesOf (node_id node) new1 = []"
    by blast
  let ?ctlB = "ctlA\<lparr>sequenceNumber := sequenceNumber ctlA + N + 1,
                 sent := sent ctlA
                   @ chunkEnvelopes tstamp cfg (node_id node) buf N (sequenceNumber ctlA) N
                   @ [PROGRESS streaming_images (pos + 1) n (sequenceNumber ctlA + N)]\<rparr>"
  have b: "streamNodeChunks tstamp cfg n ctlA (pos, node, ref) = Some ?ctlB"
    using opn wa(1) buf num by (intro streamNodeChunks_Num) simp_all
  from streamItems_returns [OF f2] obtain ctl' where
    c: "streamItems tstamp cfg n ?ctlB I2 = Some ctl'" by blast
  from streamItems_wire [OF c] i2 obtain new2 where
    wc: "ws_open ctl' = ws_open ?ctlB" "stats ctl' = stats ?ctlB" "totalNodes ctl' = totalNodes ?ctlB"
        "sent ctl' = sent ?ctlB @ new2" "list_all isLater new2" "nodesOf new2 = []"
        "chunkIndicesOf (node_id node) new2 = []"
    by blast
  have run: "streamItems tstamp cfg n ctl (I1 @ (pos, node, ref) # I2) = Some ctl'"
    by (simp only: streamItems_append a option.case streamItems.simps b c)
  have "sent ctl' = sent ctl @ new1
               @ chunkEnvelopes tstamp cfg (node_id node) buf N (sequenceNumber ctlA) N
               @ [PROGRESS streaming_images (pos + 1) n (sequenceNumber ctlA + N)] @ new2"
    by (simp add: wc wa)
  moreover have "ws_open ctl'" "stats ctl' = stats ctl" "totalNodes ctl' = totalNodes ctl"
    using opn by (simp_all add: wc wa)
  ultimately show ?thesis using run wa(5,6,7) wc(5,6,7) by blast
qed

lemma zip_upt_split:
  "zip [0 ..< length (A @ x # B)] (A @ x # B)
     = zip [0 ..< length A] A @ (length A, x) # zip [Suc (length A) ..< Suc (length A + length B)] B"
proof -
  have a: "[0 ..< length A + Suc (length B)]
      = [0 ..< length A] @ [length A ..< length A + Suc (length B)]"
    using upt_add_eq_append [of 0 "length A" "Suc (length B)"] by simp
  have b: "[length A ..< length A + Suc (length B)]
      = length A # [Suc (length A) ..< length A + Suc (length B)]"
    by (rule upt_conv_Cons) simp
  have "[0 ..< length (A @ x # B)]
      = [0 ..< length A] @ length A # [Suc (length A) ..< Suc (length A + length B)]"
    using a b by simp
  then show ?thesis by simp
qed

lemma map_filter_append: "List.map_filter g (xs @ ys) = List.map_filter g xs @ List.map_filter g ys"
  by (simp add: map_filter_def)

lemma map_filter_streamedRef_mem:
  assumes "x \<in> set (List.map_filter streamedRef ns)"
  shows "fst x \<in> set ns"
proof -
  from assms obtain node where n: "node \<in> set ns" and s: "streamedRef node = Some x"
    by (auto simp: map_filter_def)
  from s have "fst x = node"
    by (cases x) (simp add: streamedRef_Some)
  with n show ?thesis by simp
qed

lemma streamed_item_processed:
  assumes "node_type node = IMAGE" and "node_image node = Some img" and "url img \<noteq> []"
      and "success (f (url img))" and "buffer (f (url img)) = Some buf"
      and "IMAGE_SIZE_THRESHOLD cfg \<le> length buf"
  shows "\<exists>node1. processedNode f cfg (attachImageSource node) = applyResult cfg (Some (buf, True)) node1
           \<and> node_id node1 = node_id node"
    and "isImageWithSource (attachImageSource node)"
proof -
  let ?n = "node\<lparr>imageSource := Some \<lparr>originalUrl = url img, resolvedUrl = url img\<rparr>\<rparr>"
  have att: "attachImageSource node = ?n"
    using assms(1-3) by (simp add: attachImageSource_def)
  show iws: "isImageWithSource (attachImageSource node)"
    using assms(1) by (simp add: att isImageWithSource_def)
  let ?n1 = "?n\<lparr>imageProcessing := Some
                           \<lparr>ip_originalFormat = orUnknown (originalFormat (f (url img))),
                            ip_convertedFormat = convertedFormat (f (url img)),
                            wasConverted =
                              (Some (orUnknown (originalFormat (f (url img)))) \<noteq> convertedFormat (f (url img))),
                            processingError = None\<rparr>\<rparr>"
  obtain r n1 st1 where q: "processImageForNode f cfg initialStats ?n = (r, n1, st1)"
    by (cases "processImageForNode f cfg initialStats ?n") auto
  have "fst (processImageForNode f cfg initialStats ?n) = Some (buf, True)
      \<and> fst (snd (processImageForNode f cfg initialStats ?n)) = ?n1"
    using assms(3-6) by (simp add: processImageForNode_def Let_def)
  with q have "r = Some (buf, True)" and "n1 = ?n1" by simp_all
  with q have "stepNode f cfg ?n = applyResult cfg (Some (buf, True)) ?n1"
    by (simp add: stepNode_def)
  with iws have "processedNode f cfg (attachImageSource node) = applyResult cfg (Some (buf, True)) ?n1"
    by (simp add: processedNode_def att)
  moreover have "node_id ?n1 = node_id node" by simp
  ultimately show "\<exists>node1. processedNode f cfg (attachImageSource node)
        = applyResult cfg (Some (buf, True)) node1 \<and> node_id node1 = node_id node"
    by blast
qed

lemma session_chunks_of_item:
  assumes chunk: "0 < IMAGE_CHUNK_SIZE cfg" and opn: "ws_open ctl"
      and fin: "list_all finiteChunkRef (nodes payload)"
      and dist: "distinct (map node_id (nodes payload))"
      and mem: "node0 \<in> set (nodes payload)"
      and img: "node_type node0 = IMAGE" "node_image node0 = Some img" "url img \<noteq> []"
      and ok: "success (f (url img))" "buffer (f (url img)) = Some buf"
      and big: "IMAGE_SIZE_THRESHOLD cfg \<le> length buf"
      and N: "N = nat \<lceil>real (length buf) / real (IMAGE_CHUNK_SIZE cfg)\<rceil>"
  shows "\<exists>ctl' before after seq0 cur tot sentNode.
           streamExtractedPage f cfg tstamp ctl payload = Some ctl'
         \<and> sent ctl' = sent ctl @ before
               @ chunkEnvelopes tstamp cfg (node_id node0) buf N seq0 N
               @ [PROGRESS streaming_images cur tot (seq0 + N)] @ after
         \<and> chunkIndicesOf (node_id node0) before = []
         \<and> chunkIndicesOf (node_id node0) after = []
         \<and> sentNode \<in> set (nodesOf before) \<and> node_id sentNode = node_id node0
         \<and> imageChunkRef sentNode
             = Some \<lparr>totalSize = length buf, ref_totalChunks = Num N,
                     chunkSize = IMAGE_CHUNK_SIZE cfg, isStreamed = True\<rparr>
         \<and> 0 < cur \<and> cur \<le> tot"
proof -
  let ?P = "\<lambda>n. processedNode f cfg (attachImageSource n)"
  let ?nid = "node_id node0"
  let ?ns1 = "map (processedNode f cfg) (attachImageSources (nodes payload))"
  let ?ref = "\<lparr>totalSize = length buf, ref_totalChunks = Num N,
             chunkSize = IMAGE_CHUNK_SIZE cfg, isStreamed = True\<rparr>"
  from mem obtain pre post where split: "nodes payload = pre @ node0 # post"
    by (auto simp: in_set_conv_decomp)
  have ns1: "?ns1 = map ?P pre @ ?P node0 # map ?P post"
    by (simp add: attachImageSources_def split)
  have other: "\<And>m. m \<in> set pre \<union> set post \<Longrightarrow> node_id (?P m) \<noteq> ?nid"
  proof -
    fix m assume "m \<in> set pre \<union> set post"
    then have "node_id m \<in> node_id ` (set pre \<union> set post)" by (rule imageI)
    moreover from dist have "?nid \<notin> node_id ` (set pre \<union> set post)"
      unfolding split by auto
    ultimately have "node_id m \<noteq> ?nid" by metis
    then show "node_id (?P m) \<noteq> ?nid" by (simp add: node_id_processed)
  qed
  from streamed_item_processed(1) [of node0 img f buf cfg] img ok big obtain node1 where
    p: "?P node0 = applyResult cfg (Some (buf, True)) node1" and id1: "node_id node1 = ?nid"
    by blast
  have num: "ceil_div (length buf) (IMAGE_CHUNK_SIZE cfg) = Num N"
    using chunk N by (simp add: ceil_div_real)
  have fields: "imageBuffer (?P node0) = Some buf" "node_id (?P node0) = ?nid"
      "imageChunkRef (?P node0) = Some ?ref"
    unfolding p using applyResult_streamed [of cfg buf node1] by (simp_all add: id1 num)
  have sref: "streamedRef (?P node0) = Some (?P node0, ?ref)"
    by (simp add: streamedRef_def fields)
  define A where "A = List.map_filter streamedRef (map ?P pre)"
  define B where "B = List.map_filter streamedRef (map ?P post)"
  define I1 where "I1 = zip [0 ..< length A] A"
  define I2 where "I2 = zip [Suc (length A) ..< Suc (length A + length B)] B"
  have S: "List.map_filter streamedRef ?ns1 = A @ (?P node0, ?ref) # B"
    by (simp add: ns1 map_filter_append A_def B_def map_filter_simps sref)
  have items: "zip [0 ..< length (A @ (?P node0, ?ref) # B)] (A @ (?P node0, ?ref) # B)
      = I1 @ (length A, ?P node0, ?ref) # I2"
    unfolding I1_def I2_def by (rule zip_upt_split)
  have fin1: "list_all finiteChunkRef ?ns1"
    using chunk fin by (simp add: attachImageSources_def list_all_iff finiteChunkRef_processed)
  have inS: "\<And>item. item \<in> set (I1 @ I2) \<Longrightarrow> snd item \<in> set A \<union> set B"
  proof -
    fix item assume "item \<in> set (I1 @ I2)"
    then consider "item \<in> set I1" | "item \<in> set I2" by auto
    then show "snd item \<in> set A \<union> set B"
    proof cases
      case 1
      then show ?thesis
        using set_zip_rightD [of "fst item" "snd item" "[0 ..< length A]" A] by (simp add: I1_def)
    next
      case 2
      then show ?thesis
        using set_zip_rightD [of "fst item" "snd item" "[Suc (length A) ..< Suc (length A + length B)]" B]
        by (simp add: I2_def)
    qed
  qed
  have finI: "\<forall>item \<in> set (I1 @ I2). ref_totalChunks (snd (snd item)) \<noteq> Infinity"
  proof
    fix item assume "item \<in> set (I1 @ I2)"
    from inS [OF this] have "snd item \<in> set (List.map_filter streamedRef ?ns1)"
      by (auto simp: S)
    with streamedRef_finite [OF fin1] show "ref_totalChunks (snd (snd item)) \<noteq> Infinity" by blast
  qed
  have idsI: "?nid \<notin> (\<lambda>item. node_id (fst (snd item))) ` set (I1 @ I2)"
  proof
    assume "?nid \<in> (\<lambda>item. node_id (fst (snd item))) ` set (I1 @ I2)"
    then obtain item where nid: "?nid = node_id (fst (snd item))" and it: "item \<in> set (I1 @ I2)"
      by (rule imageE)
    from inS [OF it] have "fst (snd item) \<in> set (map ?P pre) \<union> set (map ?P post)"
      unfolding A_def B_def using map_filter_streamedRef_mem [of "snd item"] by blast
    then have "fst (snd item) \<in> ?P ` (set pre \<union> set post)" by auto
    then obtain m where "fst (snd item) = ?P m" and "m \<in> set pre \<union> set post"
      by (rule imageE)
    with other nid show False by metis
  qed
  from beforeImageChunks_trace [OF opn, of f cfg payload]
  obtain ctl4 ps tk hd sq where hd: "beforeImageChunks f cfg ctl payload = (ctl4, ?ns1)"
      and w4: "ws_open ctl4" "sent ctl4 = sent ctl @ ps @ tk @ hd"
        "\<forall>nid. chunkIndicesOf nid hd = []" "nodesOf hd = ?ns1"
      and ps: "list_all isProcessingProgress ps"
        "tk = (case tokens payload of None \<Rightarrow> [] | Some t \<Rightarrow> [TOKENS t sq])"
    by blast
  have tk: "nodesOf tk = []" "\<And>nid. chunkIndicesOf nid tk = []"
    by (simp_all add: ps(2) split: option.splits)
  from streamItems_at [OF finI w4(1) fields(1) _ idsI [unfolded fields(2) [symmetric]],
      of ?ref N tstamp cfg "length (A @ (?P node0, ?ref) # B)" "length A"]
  obtain ctl5 new1 new2 seq0 where
    run: "streamItems tstamp cfg (length (A @ (?P node0, ?ref) # B)) ctl4
            (I1 @ (length A, ?P node0, ?ref) # I2) = Some ctl5"
    and w5: "sent ctl5 = sent ctl4 @ new1
               @ chunkEnvelopes tstamp cfg ?nid buf N seq0 N
               @ [PROGRESS streaming_images (length A + 1) (length (A @ (?P node0, ?ref) # B))
                    (seq0 + N)] @ new2"
      "chunkIndicesOf ?nid new1 = []" "chunkIndicesOf ?nid new2 = []"
    by (auto simp: fields(2))
  have c5: "streamImageChunks tstamp cfg ctl4 ?ns1 = Some ctl5"
    unfolding streamImageChunks_def Let_def S items by (rule run)
  have whole: "streamExtractedPage f cfg tstamp ctl payload = Some (sendComplete ctl5)"
    by (simp add: streamExtractedPage_def hd c5)
  obtain fin_msg where w6: "sent (sendComplete ctl5) = sent ctl5 @ fin_msg"
      "chunkIndicesOf ?nid fin_msg = []"
  proof (cases "ws_open ctl5")
    case True
    then have "sent (sendComplete ctl5) = sent ctl5 @ [COMPLETE (totalNodes ctl5)
        (totalImages (stats ctl5)) (inlineImages (stats ctl5)) (streamedImages (stats ctl5))
        (sequenceNumber ctl5)]"
      by (simp add: sendComplete_def sendNumbered_wire)
    then show ?thesis using that by simp
  next
    case False
    then have "sent (sendComplete ctl5) = sent ctl5 @ []"
      by (simp add: sendComplete_def sendNumbered_wire)
    then show ?thesis using that by simp
  qed
  let ?before = "ps @ tk @ hd @ new1"
  let ?after = "new2 @ fin_msg"
  have tr: "sent (sendComplete ctl5) = sent ctl @ ?before
               @ chunkEnvelopes tstamp cfg ?nid buf N seq0 N
               @ [PROGRESS streaming_images (length A + 1) (length (A @ (?P node0, ?ref) # B))
                    (seq0 + N)] @ ?after"
    by (simp add: w6 w5 w4)
  have cb: "chunkIndicesOf ?nid ?before = []"
    using processingProgress_only [OF ps(1)] tk w4(3) w5(2) by (simp add: chunkIndicesOf_append)
  have ca: "chunkIndicesOf ?nid ?after = []"
    using w5(3) w6(2) by (simp add: chunkIndicesOf_append)
  have nb: "?P node0 \<in> set (nodesOf ?before)"
    using w4(4) by (simp add: nodesOf_append ns1)
  have pos: "0 < length A + 1" "length A + 1 \<le> length (A @ (?P node0, ?ref) # B)"
    by simp_all
  from whole tr cb ca nb fields(2,3) pos
  have "streamExtractedPage f cfg tstamp ctl payload = Some (sendComplete ctl5)
         \<and> sent (sendComplete ctl5) = sent ctl @ ?before
               @ chunkEnvelopes tstamp cfg (node_id node0) buf N seq0 N
               @ [PROGRESS streaming_images (length A + 1) (length (A @ (?P node0, ?ref) # B))
                    (seq0 + N)] @ ?after
         \<and> chunkIndicesOf (node_id node0) ?before = []
         \<and> chunkIndicesOf (node_id node0) ?after = []
         \<and> ?P node0 \<in> set (nodesOf ?before) \<and> node_id (?P node0) = node_id node0
         \<and> imageChunkRef (?P node0)
             = Some \<lparr>totalSize = length buf, ref_totalChunks = Num N,
                     chunkSize = IMAGE_CHUNK_SIZE cfg, isStreamed = True\<rparr>
         \<and> 0 < length A + 1 \<and> length A + 1 \<le> length (A @ (?P node0, ?ref) # B)"
    by (simp only: simp_thms)
  then show ?thesis by (intro exI)
qed

lemma session_extends_head:
  assumes "streamExtractedPage f cfg tstamp ctl payload = Some ctl'"
  shows "\<exists>ch. sent ctl' = sent (fst (beforeImageChunks f cfg ctl payload)) @ ch
            \<and> list_all isLater ch"
proof -
  obtain ctl4 ns1 where hd: "beforeImageChunks f cfg ctl payload = (ctl4, ns1)"
    by (cases "beforeImageChunks f cfg ctl payload")
  from assms obtain ctl5 where c5: "streamImageChunks tstamp cfg ctl4 ns1 = Some ctl5"
    and c': "ctl' = sendComplete ctl5"
    by (cases "streamImageChunks tstamp cfg ctl4 ns1") (auto simp: streamExtractedPage_def hd)
  from streamImageChunks_wire [OF c5] obtain ch where
    w5: "sent ctl5 = sent ctl4 @ ch" "list_all isLater ch" by blast
  let ?q = "if ws_open ctl5 then [COMPLETE (totalNodes ctl5) (totalImages (stats ctl5))
              (inlineImages (stats ctl5)) (streamedImages (stats ctl5)) (sequenceNumber ctl5)]
            else []"
  have "sent ctl' = sent ctl4 @ (ch @ ?q)"
    by (simp add: c' sendComplete_def sendNumbered_wire w5)
  moreover have "list_all isLater (ch @ ?q)" using w5 by simp
  ultimately show ?thesis unfolding hd fst_conv by blast
qed

text \<open>
  Claim C6. In a session (socket open, positive chunk size, distinct item ids, no item
  arriving with an infinite chunk count), let an
  image item have a URL whose fetch succeeds with a payload \<open>buf\<close> of at least the
  threshold size, so that the item is chunked. Then the session returns; the item goes
  out in a \<open>NODES\<close> batch with the chunk reference \<open>totalSize = length buf\<close>,
  \<open>totalChunks = ceil(totalSize / chunkSize)\<close>; and the envelopes of the session hold
  exactly that many \<open>IMAGE_CHUNK\<close> envelopes for the item, in one run, with the chunk
  indices \<open>0, 1, ..., totalChunks - 1\<close> in this order and the data cut from \<open>buf\<close>,
  directly followed by one \<open>PROGRESS\<close> envelope of the stage \<open>streaming_images\<close>.
  For 307200 bytes (300 KB) and chunks of 65536 bytes (64 KB) the indices are 0 to 4.
\<close>

theorem chunk_envelopes_of_item:
  assumes "0 < IMAGE_CHUNK_SIZE cfg" and "ws_open ctl"
      and "list_all finiteChunkRef (nodes payload)"
      and "distinct (map node_id (nodes payload))"
      and "node0 \<in> set (nodes payload)"
      and "node_type node0 = IMAGE" and "node_image node0 = Some img" and "url img \<noteq> []"
      and "success (f (url img))" and "buffer (f (url img)) = Some buf"
      and "IMAGE_SIZE_THRESHOLD cfg \<le> length buf"
      and "N = nat \<lceil>real (length buf) / real (IMAGE_CHUNK_SIZE cfg)\<rceil>"
  shows "\<exists>ctl' before after seq0 cur tot sentNode.
           streamExtractedPage f cfg tstamp ctl payload = Some ctl'
         \<and> sent ctl' = sent ctl @ before
               @ chunkEnvelopes tstamp cfg (node_id node0) buf N seq0 N
               @ [PROGRESS streaming_images cur tot (seq0 + N)] @ after
         \<and> chunkIndicesOf (node_id node0) before = []
         \<and> chunkIndicesOf (node_id node0) after = []
         \<and> chunkIndicesOf (node_id node0) (drop (length (sent ctl)) (sent ctl')) = [0 ..< N]
         \<and> sentNode \<in> set (nodesOf before) \<and> node_id sentNode = node_id node0
         \<and> imageChunkRef sentNode
             = Some \<lparr>totalSize = length buf, ref_totalChunks = Num N,
                     chunkSize = IMAGE_CHUNK_SIZE cfg, isStreamed = True\<rparr>
         \<and> 0 < cur \<and> cur \<le> tot
         \<and> (length buf = 307200 \<and> IMAGE_CHUNK_SIZE cfg = 65536 \<longrightarrow>
              chunkIndicesOf (node_id node0) (drop (length (sent ctl)) (sent ctl'))
                = [0, 1, 2, 3, 4])"
proof -
  have five: "length buf = 307200 \<and> IMAGE_CHUNK_SIZE cfg = 65536 \<longrightarrow> [0 ..< N] = [0, 1, 2, 3, 4]"
  proof
    assume a: "length buf = 307200 \<and> IMAGE_CHUNK_SIZE cfg = 65536"
    have "Num N = ceil_div 307200 65536"
      using assms(1,12) a ceil_div_real [of "IMAGE_CHUNK_SIZE cfg" "length buf"] by simp
    then have "N = 5" by (simp add: ceil_div_def)
    then show "[0 ..< N] = [0, 1, 2, 3, 4]" by (simp add: upt_rec)
  qed
  from session_chunks_of_item [where f = f and tstamp = tstamp, OF assms]
  obtain ctl' before after seq0 cur tot sentNode where
    s: "streamExtractedPage f cfg tstamp ctl payload = Some ctl'"
      "sent ctl' = sent ctl @ before
               @ chunkEnvelopes tstamp cfg (node_id node0) buf N seq0 N
               @ [PROGRESS streaming_images cur tot (seq0 + N)] @ after"
      "chunkIndicesOf (node_id node0) before = []"
      "chunkIndicesOf (node_id node0) after = []"
      "sentNode \<in> set (nodesOf before)" "node_id sentNode = node_id node0"
      "imageChunkRef sentNode
             = Some \<lparr>totalSize = length buf, ref_totalChunks = Num N,
                     chunkSize = IMAGE_CHUNK_SIZE cfg, isStreamed = True\<rparr>"
      "0 < cur" "cur \<le> tot"
    by blast
  have idx: "chunkIndicesOf (node_id node0) (drop (length (sent ctl)) (sent ctl')) = [0 ..< N]"
    by (simp add: s(2,3,4) chunkIndicesOf_append chunkIndicesOf_chunkEnvelopes)
  from s idx five
  have "streamExtractedPage f cfg tstamp ctl payload = Some ctl'
         \<and> sent ctl' = sent ctl @ before
               @ chunkEnvelopes tstamp cfg (node_id node0) buf N seq0 N
               @ [PROGRESS streaming_images cur tot (seq0 + N)] @ after
         \<and> chunkIndicesOf (node_id node0) before = []
         \<and> chunkIndicesOf (node_id node0) after = []
         \<and> chunkIndicesOf (node_id node0) (drop (length (sent ctl)) (sent ctl')) = [0 ..< N]
         \<and> sentNode \<in> set (nodesOf before) \<and> node_id sentNode = node_id node0
         \<and> imageChunkRef sentNode
             = Some \<lparr>totalSize = length buf, ref_totalChunks = Num N,
                     chunkSize = IMAGE_CHUNK_SIZE cfg, isStreamed = True\<rparr>
         \<and> 0 < cur \<and> cur \<le> tot
         \<and> (length buf = 307200 \<and> IMAGE_CHUNK_SIZE cfg = 65536 \<longrightarrow>
              chunkIndicesOf (node_id node0) (drop (length (sent ctl)) (sent ctl'))
                = [0, 1, 2, 3, 4])"
    by (simp only: simp_thms)
  then show ?thesis by (intro exI)
qed

theorem chunk_envelopes_of_item_witness:
  "\<exists>ctl' before after seq0 cur tot.
     streamExtractedPage exampleFetch exampleConfig exampleClock (newController True)
       \<lparr>nodes = [imageNode ''pic'' ''big''], fonts = [], tokens = None\<rparr> = Some ctl'
   \<and> sent ctl' = before
        @ [IMAGE_CHUNK ''pic'' 0 3 [1, 2] seq0 (exampleClock seq0),
           IMAGE_CHUNK ''pic'' 1 3 [3, 4] (seq0 + 1) (exampleClock (seq0 + 1)),
           IMAGE_CHUNK ''pic'' 2 3 [5] (seq0 + 2) (exampleClock (seq0 + 2)),
           PROGRESS streaming_images cur tot (seq0 + 3)] @ after
   \<and> chunkIndicesOf ''pic'' before = [] \<and> chunkIndicesOf ''pic'' after = []
   \<and> chunkIndicesOf ''pic'' (sent ctl') = [0, 1, 2]"
proof -
  let ?p = "\<lparr>nodes = [imageNode ''pic'' ''big''], fonts = [], tokens = None\<rparr>"
  let ?img = "\<lparr>url = ''big'', data = None\<rparr>"
  let ?buf = "[1, 2, 3, 4, 5] :: byte list"
  have h: "0 < IMAGE_CHUNK_SIZE exampleConfig" "ws_open (newController True)"
      "list_all finiteChunkRef (nodes ?p)" "distinct (map node_id (nodes ?p))"
      "imageNode ''pic'' ''big'' \<in> set (nodes ?p)"
      "node_type (imageNode ''pic'' ''big'') = IMAGE"
      "node_image (imageNode ''pic'' ''big'') = Some ?img" "url ?img \<noteq> []"
      "success (exampleFetch (url ?img))" "buffer (exampleFetch (url ?img)) = Some ?buf"
      "IMAGE_SIZE_THRESHOLD exampleConfig \<le> length ?buf"
      "(3 :: nat) = nat \<lceil>real (length ?buf) / real (IMAGE_CHUNK_SIZE exampleConfig)\<rceil>"
    by (simp_all add: exampleConfig_def newController_def finiteChunkRef_def imageNode_def
        exampleFetch_def)
  have three: "[0 ..< 3] = [0, 1, 2 :: nat]" by (simp add: upt_rec)
  have id: "node_id (imageNode ''pic'' ''big'') = ''pic''" by (simp add: imageNode_def)
  have nil: "sent (newController True) = []" by (simp add: newController_def)
  have env: "\<And>seq0. chunkEnvelopes exampleClock exampleConfig ''pic'' ?buf 3 seq0 3
      = [IMAGE_CHUNK ''pic'' 0 3 [1, 2] seq0 (exampleClock seq0),
         IMAGE_CHUNK ''pic'' 1 3 [3, 4] (seq0 + 1) (exampleClock (seq0 + 1)),
         IMAGE_CHUNK ''pic'' 2 3 [5] (seq0 + 2) (exampleClock (seq0 + 2))]"
    by (simp add: chunkEnvelopes_def three chunkData_def slice_def exampleConfig_def)
  from chunk_envelopes_of_item [where f = exampleFetch and tstamp = exampleClock, OF h]
  obtain ctl' before after seq0 cur tot where
    "streamExtractedPage exampleFetch exampleConfig exampleClock (newController True) ?p = Some ctl'"
    "sent ctl' = sent (newController True) @ before
               @ chunkEnvelopes exampleClock exampleConfig (node_id (imageNode ''pic'' ''big'')) ?buf 3 seq0 3
               @ [PROGRESS streaming_images cur tot (seq0 + 3)] @ after"
    "chunkIndicesOf (node_id (imageNode ''pic'' ''big'')) before = []"
    "chunkIndicesOf (node_id (imageNode ''pic'' ''big'')) after = []"
    "chunkIndicesOf (node_id (imageNode ''pic'' ''big''))
       (drop (length (sent (newController True))) (sent ctl')) = [0 ..< 3]"
    by blast
  then have "streamExtractedPage exampleFetch exampleConfig exampleClock (newController True) ?p
       = Some ctl'
   \<and> sent ctl' = before
        @ [IMAGE_CHUNK ''pic'' 0 3 [1, 2] seq0 (exampleClock seq0),
           IMAGE_CHUNK ''pic'' 1 3 [3, 4] (seq0 + 1) (exampleClock (seq0 + 1)),
           IMAGE_CHUNK ''pic'' 2 3 [5] (seq0 + 2) (exampleClock (seq0 + 2)),
           PROGRESS streaming_images cur tot (seq0 + 3)] @ after
   \<and> chunkIndicesOf ''pic'' before = [] \<and> chunkIndicesOf ''pic'' after = []
   \<and> chunkIndicesOf ''pic'' (sent ctl') = [0, 1, 2]"
    by (simp add: id nil env three)
  then show ?thesis by (intro exI)
qed

text \<open>
  Claim C3 says that \<open>TOKENS\<close> is the first envelope of a session with tokens, before
  every \<open>PROGRESS\<close> envelope. In the example session with one image item and tokens,
  the first envelope is the \<open>PROGRESS\<close> envelope of the stage \<open>processing_images\<close>
  and \<open>TOKENS\<close> is the second: \<open>streamExtractedPage\<close> runs \<open>processAllImages\<close>
  before it sends anything else.
\<close>

theorem tokens_first_counterexample:
  "map_option (take 2 \<circ> sent)
     (streamExtractedPage exampleFetch exampleConfig exampleClock (newController True)
        \<lparr>nodes = [imageNode ''pic'' ''small''], fonts = [], tokens = Some ''tok''\<rparr>)
   = Some [PROGRESS processing_images 1 1 0, TOKENS ''tok'' 1]"
  by (simp add: example_inline_session)

text \<open>
  Claim C3, amended. In a session with tokens (socket open, nothing sent before), the
  envelopes sent up to the chunk loop are: the \<open>PROGRESS\<close> envelopes of the stage
  \<open>processing_images\<close>, then \<open>TOKENS\<close>, then only \<open>FONTS\<close> and \<open>NODES\<close>
  envelopes; this holds of every session, also of one whose chunk loop never ends.
  \<open>TOKENS\<close> is the first envelope exactly when no item is an image with a source.
  Every session that returns has sent the same envelopes up to \<open>TOKENS\<close> and after
  it only \<open>FONTS\<close>, \<open>NODES\<close>, \<open>IMAGE_CHUNK\<close>, \<open>PROGRESS\<close> of the stage
  \<open>streaming_images\<close> and \<open>COMPLETE\<close> envelopes; and a session returns when the
  chunk size is positive and no item arrives with an infinite chunk count.
\<close>

theorem tokens_follow_processing_progress:
  assumes "ws_open ctl" and "sent ctl = []" and "tokens payload = Some t"
  shows "\<exists>ps sq hd.
           sent (fst (beforeImageChunks f cfg ctl payload)) = ps @ TOKENS t sq # hd
         \<and> list_all isProcessingProgress ps
         \<and> list_all isLater hd
         \<and> (ps = [] \<longleftrightarrow> filter isImageWithSource (attachImageSources (nodes payload)) = [])
         \<and> (\<forall>ctl'. streamExtractedPage f cfg tstamp ctl payload = Some ctl' \<longrightarrow>
                (\<exists>later. sent ctl' = ps @ TOKENS t sq # later \<and> list_all isLater later))
         \<and> (0 < IMAGE_CHUNK_SIZE cfg \<and> list_all finiteChunkRef (nodes payload) \<longrightarrow>
                (\<exists>ctl' later. streamExtractedPage f cfg tstamp ctl payload = Some ctl'
                    \<and> sent ctl' = ps @ TOKENS t sq # later \<and> list_all isLater later))"
proof -
  let ?ctl0 = "ctl\<lparr>totalNodes := length (nodes payload)\<rparr>"
  let ?ns0 = "attachImageSources (nodes payload)"
  from beforeImageChunks_trace [OF assms(1), of f cfg payload]
  obtain ctl4 ps tk hd sq where
    hd: "beforeImageChunks f cfg ctl payload = (ctl4, map (processedNode f cfg) ?ns0)"
    and tr: "sent ctl4 = sent ctl @ ps @ tk @ hd" "list_all isProcessingProgress ps"
      "sent (fst (processAllImages f cfg ?ctl0 ?ns0)) = sent ctl @ ps"
      "tk = (case tokens payload of None \<Rightarrow> [] | Some t \<Rightarrow> [TOKENS t sq])"
      "list_all isLater hd"
    by blast
  have "ws_open ?ctl0" using assms(1) by simp
  from processAllImages_first_progress [OF this, of ?ns0 f cfg] tr(3)
  have first: "ps = [] \<longleftrightarrow> filter isImageWithSource ?ns0 = []"
    by (auto split: if_splits)
  have head: "sent (fst (beforeImageChunks f cfg ctl payload)) = ps @ TOKENS t sq # hd"
    using tr(1,4) assms(2,3) by (simp add: hd)
  have ext: "\<forall>ctl'. streamExtractedPage f cfg tstamp ctl payload = Some ctl' \<longrightarrow>
                (\<exists>later. sent ctl' = ps @ TOKENS t sq # later \<and> list_all isLater later)"
  proof (intro allI impI)
    fix ctl' assume "streamExtractedPage f cfg tstamp ctl payload = Some ctl'"
    from session_extends_head [OF this] obtain ch where
      "sent ctl' = sent (fst (beforeImageChunks f cfg ctl payload)) @ ch" "list_all isLater ch"
      by blast
    then have "sent ctl' = ps @ TOKENS t sq # (hd @ ch)" "list_all isLater (hd @ ch)"
      using tr(5) by (simp_all add: head)
    then show "\<exists>later. sent ctl' = ps @ TOKENS t sq # later \<and> list_all isLater later"
      by blast
  qed
  have tot: "0 < IMAGE_CHUNK_SIZE cfg \<and> list_all finiteChunkRef (nodes payload) \<longrightarrow>
                (\<exists>ctl' later. streamExtractedPage f cfg tstamp ctl payload = Some ctl'
                    \<and> sent ctl' = ps @ TOKENS t sq # later \<and> list_all isLater later)"
  proof
    assume "0 < IMAGE_CHUNK_SIZE cfg \<and> list_all finiteChunkRef (nodes payload)"
    then obtain ctl' where "streamExtractedPage f cfg tstamp ctl payload = Some ctl'"
      using session_returns [of cfg payload ctl f tstamp] assms(1) by blast
    with ext show "\<exists>ctl' later. streamExtractedPage f cfg tstamp ctl payload = Some ctl'
                    \<and> sent ctl' = ps @ TOKENS t sq # later \<and> list_all isLater later"
      by blast
  qed
  from head tr(2,5) first ext tot show ?thesis by blast
qed

theorem tokens_follow_processing_progress_witness:
  "\<exists>ps sq later ctl'.
     streamExtractedPage exampleFetch exampleConfig exampleClock (newController True)
        \<lparr>nodes = [imageNode ''pic'' ''small''], fonts = [], tokens = Some ''tok''\<rparr> = Some ctl'
     \<and> sent ctl' = ps @ TOKENS ''tok'' sq # later
     \<and> list_all isProcessingProgress ps \<and> list_all isLater later \<and> ps \<noteq> []"
proof -
  let ?p = "\<lparr>nodes = [imageNode ''pic'' ''small''], fonts = [], tokens = Some ''tok''\<rparr>"
  have h: "ws_open (newController True)" "sent (newController True) = []" "tokens ?p = Some ''tok''"
    by (simp_all add: newController_def)
  have img: "filter isImageWithSource (attachImageSources (nodes ?p)) \<noteq> []"
    by (simp add: attachImageSources_def attachImageSource_def isImageWithSource_def imageNode_def)
  have tot: "0 < IMAGE_CHUNK_SIZE exampleConfig \<and> list_all finiteChunkRef (nodes ?p)"
    by (simp add: exampleConfig_def finiteChunkRef_def imageNode_def)
  from tokens_follow_processing_progress [OF h, of exampleFetch exampleConfig exampleClock] img tot
  show ?thesis by blast
qed

section \<open>An item whose fetch fails\<close>

lemma failed_item_processed:
  assumes "node_type node = IMAGE" and "node_image node = Some img" and "url img \<noteq> []"
      and "fetchFails f (url img)"
  shows "isImageWithSource (attachImageSource node)"
    and "hasResolvedUrl (attachImageSource node)"
    and "processedNode f cfg (attachImageSource node)
           = node\<lparr>imageSource := Some \<lparr>originalUrl = url img, resolvedUrl = url img\<rparr>,
                   imageProcessing := Some
                     \<lparr>ip_originalFormat = orUnknown (originalFormat (f (url img))),
                      ip_convertedFormat = None, wasConverted = False,
                      processingError = error (f (url img))\<rparr>\<rparr>"
    and "failedImages (snd (snd (processImageForNode f cfg st (attachImageSource node))))
           = failedImages st + 1"
proof -
  let ?n = "node\<lparr>imageSource := Some \<lparr>originalUrl = url img, resolvedUrl = url img\<rparr>\<rparr>"
  have att: "attachImageSource node = ?n"
    using assms(1-3) by (simp add: attachImageSource_def)
  show "isImageWithSource (attachImageSource node)"
    using assms(1) by (simp add: att isImageWithSource_def)
  show "hasResolvedUrl (attachImageSource node)"
    using assms(3) by (simp add: att hasResolvedUrl_def)
  have no: "(if success (f (url img)) then buffer (f (url img)) else None) = None"
    using assms(4) by (auto simp: fetchFails_def)
  have pif: "\<And>st. processImageForNode f cfg st ?n
      = (None,
         ?n\<lparr>imageProcessing := Some
               \<lparr>ip_originalFormat = orUnknown (originalFormat (f (url img))),
                ip_convertedFormat = None, wasConverted = False,
                processingError = error (f (url img))\<rparr>\<rparr>,
         st\<lparr>totalImages := totalImages st + 1, failedImages := failedImages st + 1\<rparr>)"
    using assms(3) no by (simp add: processImageForNode_def Let_def)
  show "processedNode f cfg (attachImageSource node)
           = node\<lparr>imageSource := Some \<lparr>originalUrl = url img, resolvedUrl = url img\<rparr>,
                   imageProcessing := Some
                     \<lparr>ip_originalFormat = orUnknown (originalFormat (f (url img))),
                      ip_convertedFormat = None, wasConverted = False,
                      processingError = error (f (url img))\<rparr>\<rparr>"
    using assms(1) by (simp add: att processedNode_def isImageWithSource_def stepNode_def pif
        applyResult_def)
  show "failedImages (snd (snd (processImageForNode f cfg st (attachImageSource node))))
           = failedImages st + 1"
    by (simp add: att pif)
qed

lemma failedImages_mono_step:
  "failedImages st \<le> failedImages (snd (snd (processImageForNode f cfg st node)))"
proof (cases "hasResolvedUrl node")
  case True
  with processImageForNode_counts [of node f cfg st] show ?thesis by simp
next
  case False
  then show ?thesis by (simp add: processImageForNode_no_source)
qed

lemma failedImages_mono:
  "failedImages st \<le> failedImages (processImages f cfg st ns)"
proof (induction ns arbitrary: st)
  case Nil
  show ?case by simp
next
  case (Cons n ns)
  have "failedImages st \<le> failedImages (snd (snd (processImageForNode f cfg st n)))"
    by (rule failedImages_mono_step)
  also have "\<dots> \<le> failedImages (processImages f cfg (snd (snd (processImageForNode f cfg st n))) ns)"
    by (rule Cons.IH)
  finally show ?case by simp
qed

lemma failedImages_counted:
  assumes "n \<in> set ns"
      and "\<And>st. failedImages (snd (snd (processImageForNode f cfg st n))) = failedImages st + 1"
  shows "failedImages st + 1 \<le> failedImages (processImages f cfg st ns)"
  using assms(1)
proof (induction ns arbitrary: st)
  case Nil
  then show ?case by simp
next
  case (Cons m ns)
  show ?case
  proof (cases "m = n")
    case True
    have "failedImages st + 1 = failedImages (snd (snd (processImageForNode f cfg st n)))"
      by (simp add: assms(2))
    also have "\<dots> \<le> failedImages (processImages f cfg (snd (snd (processImageForNode f cfg st n))) ns)"
      by (rule failedImages_mono)
    finally show ?thesis using True by simp
  next
    case False
    with Cons.prems have "n \<in> set ns" by simp
    then have "failedImages (snd (snd (processImageForNode f cfg st m))) + 1
        \<le> failedImages (processImages f cfg (snd (snd (processImageForNode f cfg st m))) ns)"
      by (rule Cons.IH)
    moreover have "failedImages st \<le> failedImages (snd (snd (processImageForNode f cfg st m)))"
      by (rule failedImages_mono_step)
    ultimately show ?thesis by simp
  qed
qed

lemma failed_fetch_session:
  assumes run: "streamExtractedPage f cfg tstamp (newController True) payload = Some ctl'"
      and mem: "node \<in> set (nodes payload)"
      and img: "node_type node = IMAGE" "node_image node = Some img" "url img \<noteq> []"
      and fails: "fetchFails f (url img)"
      and noref: "imageChunkRef node = None"
      and dist: "distinct (map node_id (nodes payload))"
  shows "processedNode f cfg (attachImageSource node) \<in> set (nodesOf (sent ctl'))"
    and "\<forall>node' \<in> set (nodesOf (sent ctl')). node_id node' = node_id node \<longrightarrow> \<not> isStreamedNode node'"
    and "chunkIndicesOf (node_id node) (sent ctl') = []"
    and "\<exists>lt sq. sent ctl' = lt @ [COMPLETE (length (nodes payload)) (totalImages (stats ctl'))
                            (inlineImages (stats ctl')) (streamedImages (stats ctl')) sq]"
    and "inlineImages (stats ctl') + streamedImages (stats ctl') < totalImages (stats ctl')"
    and "0 < failedImages (stats ctl')"
proof -
  let ?P = "\<lambda>n. processedNode f cfg (attachImageSource n)"
  let ?ns0 = "attachImageSources (nodes payload)"
  let ?ns1 = "map (processedNode f cfg) ?ns0"
  have opn: "ws_open (newController True)" and nil: "sent (newController True) = []"
    and st0: "stats (newController True) = initialStats"
    by (simp_all add: newController_def)
  from session_trace [OF run opn] obtain ps tk later lt sq sq' where
    tr: "sent ctl' = sent (newController True) @ ps @ tk @ later"
      "list_all isProcessingProgress ps"
      "tk = (case tokens payload of None \<Rightarrow> [] | Some t \<Rightarrow> [TOKENS t sq])"
      "nodesOf later = ?ns1"
      "\<forall>nid. (\<forall>node \<in> set ?ns1. node_id node = nid \<longrightarrow> \<not> isStreamedNode node) \<longrightarrow>
                chunkIndicesOf nid later = []"
      "later = lt @ [COMPLETE (length (nodes payload)) (totalImages (stats ctl'))
                            (inlineImages (stats ctl')) (streamedImages (stats ctl')) sq']"
      "stats ctl' = processImages f cfg (stats (newController True))
                           (filter isImageWithSource ?ns0)"
    by blast
  have tk: "nodesOf tk = []" "\<And>nid. chunkIndicesOf nid tk = []"
    by (simp_all add: tr(3) split: option.splits)
  have ns1: "?ns1 = map ?P (nodes payload)"
    by (simp add: attachImageSources_def)
  have nodes: "nodesOf (sent ctl') = ?ns1"
    using processingProgress_only [OF tr(2)] tk
    by (simp add: tr(1,4) nil nodesOf_append)
  show "?P node \<in> set (nodesOf (sent ctl'))"
    using mem by (simp add: nodes ns1)
  have proc: "?P node = node\<lparr>imageSource := Some \<lparr>originalUrl = url img, resolvedUrl = url img\<rparr>,
                   imageProcessing := Some
                     \<lparr>ip_originalFormat = orUnknown (originalFormat (f (url img))),
                      ip_convertedFormat = None, wasConverted = False,
                      processingError = error (f (url img))\<rparr>\<rparr>"
    using img fails by (rule failed_item_processed(3))
  have notstreamed: "\<not> isStreamedNode (?P node)"
    by (simp add: proc isStreamedNode_def noref)
  have only: "\<forall>node' \<in> set ?ns1. node_id node' = node_id node \<longrightarrow> \<not> isStreamedNode node'"
  proof (intro ballI impI)
    fix node' assume "node' \<in> set ?ns1" and same: "node_id node' = node_id node"
    then obtain m where m: "m \<in> set (nodes payload)" and n': "node' = ?P m"
      by (auto simp: ns1)
    with same have "node_id m = node_id node" by (simp add: node_id_processed)
    with m mem dist have "m = node"
      by (meson distinct_map inj_on_def)
    with n' notstreamed show "\<not> isStreamedNode node'" by simp
  qed
  then show "\<forall>node' \<in> set (nodesOf (sent ctl')). node_id node' = node_id node \<longrightarrow> \<not> isStreamedNode node'"
    by (simp add: nodes)
  show "chunkIndicesOf (node_id node) (sent ctl') = []"
    using processingProgress_only [OF tr(2)] tk tr(5) only
    by (simp add: tr(1) nil chunkIndicesOf_append)
  show "\<exists>lt sq. sent ctl' = lt @ [COMPLETE (length (nodes payload)) (totalImages (stats ctl'))
                            (inlineImages (stats ctl')) (streamedImages (stats ctl')) sq]"
  proof (intro exI)
    show "sent ctl' = (ps @ tk @ lt) @ [COMPLETE (length (nodes payload)) (totalImages (stats ctl'))
                            (inlineImages (stats ctl')) (streamedImages (stats ctl')) sq']"
      using tr(6) by (simp add: tr(1) nil)
  qed
  have inlist: "attachImageSource node \<in> set (filter isImageWithSource ?ns0)"
    using mem failed_item_processed(1) [OF img fails]
    by (simp add: attachImageSources_def)
  have "failedImages initialStats + 1
      \<le> failedImages (processImages f cfg initialStats (filter isImageWithSource ?ns0))"
    using inlist failed_item_processed(4) [OF img fails] by (rule failedImages_counted)
  then show failed: "0 < failedImages (stats ctl')"
    by (simp add: tr(7) st0)
  have "stats_balanced initialStats"
    by (simp add: stats_balanced_def initialStats_def)
  then have "stats_balanced (stats ctl')"
    unfolding tr(7) st0 by (rule processImages_balanced)
  with failed show "inlineImages (stats ctl') + streamedImages (stats ctl') < totalImages (stats ctl')"
    by (simp add: stats_balanced_def)
qed

lemma example_failed_session:
  "streamExtractedPage exampleFetch exampleConfig exampleClock (newController True)
        \<lparr>nodes = [imageNode ''pic'' ''gone''], fonts = [], tokens = None\<rparr>
   = Some \<lparr>sequenceNumber = 3,
       stats = \<lparr>totalImages = 1, inlineImages = 0, streamedImages = 0, failedImages = 1,
                 totalBytesProcessed = 0\<rparr>,
       totalNodes = 1, ws_open = True,
       sent = [PROGRESS processing_images 1 1 0,
               NODES [(imageNode ''pic'' ''gone'')
                 \<lparr>imageSource := Some \<lparr>originalUrl = ''gone'', resolvedUrl = ''gone''\<rparr>,
                   imageProcessing := Some \<lparr>ip_originalFormat = ''unknown'',
                      ip_convertedFormat = None, wasConverted = False,
                      processingError = Some ''HTTP 404: Not Found''\<rparr>\<rparr>] 1,
               COMPLETE 1 1 0 0 2]\<rparr>"
proof -
  let ?p = "\<lparr>nodes = [imageNode ''pic'' ''gone''], fonts = [], tokens = None\<rparr>"
  let ?st = "\<lparr>totalImages = 1, inlineImages = 0, streamedImages = 0, failedImages = 1,
                 totalBytesProcessed = 0\<rparr>"
  let ?n = "(imageNode ''pic'' ''gone'')
                 \<lparr>imageSource := Some \<lparr>originalUrl = ''gone'', resolvedUrl = ''gone''\<rparr>,
                   imageProcessing := Some \<lparr>ip_originalFormat = ''unknown'',
                      ip_convertedFormat = None, wasConverted = False,
                      processingError = Some ''HTTP 404: Not Found''\<rparr>\<rparr>"
  let ?c1 = "\<lparr>sequenceNumber = 1, stats = ?st, totalNodes = 1, ws_open = True,
              sent = [PROGRESS processing_images 1 1 0]\<rparr>"
  let ?c4 = "\<lparr>sequenceNumber = 2, stats = ?st, totalNodes = 1, ws_open = True,
              sent = [PROGRESS processing_images 1 1 0, NODES [?n] 1]\<rparr>"
  have a: "processAllImages exampleFetch exampleConfig
             (newController True\<lparr>totalNodes := length (nodes ?p)\<rparr>)
             (attachImageSources (nodes ?p)) = (?c1, [?n])"
    by (simp add: attachImageSources_def attachImageSource_def processAllImages_def
        processWaves.simps processOne_def processImageForNode_def applyResult_def
        deleteImageData_def isImageWithSource_def orUnknown_def sendProgress_def
        sendNumbered_def send_def slice_def newController_def initialStats_def Let_def
        exampleFetch_def exampleConfig_def imageNode_def CONFIG_default_def)
  have b: "(case tokens ?p of None \<Rightarrow> ?c1 | Some t \<Rightarrow> sendNumbered ?c1 (TOKENS t)) = ?c1"
    by simp
  have c: "(if fonts ?p \<noteq> [] then sendNumbered ?c1 (FONTS (fonts ?p)) else ?c1) = ?c1"
    by simp
  have d: "streamNodes ?c1 [?n] = ?c4"
    by (simp add: streamNodes_def streamNodesFrom.simps BATCH_SIZE_def cloneForTransport_def
        sendNumbered_def send_def slice_def)
  have e: "streamImageChunks exampleClock exampleConfig ?c4 [?n] = Some ?c4"
    by (simp add: streamImageChunks_def streamedRef_def List.map_filter_def imageNode_def)
  show ?thesis
    unfolding session_steps [OF a b c d e]
    by (simp add: sendComplete_def sendNumbered_def send_def)
qed

section \<open>Properties of the consumer's event loop\<close>

lemma set_update_subset: "set (AList.update k v al) \<subseteq> insert (k, v) (set al)"
  by (induction al) auto

lemma set_delete_subset: "set (AList.delete k al) \<subseteq> set al"
  by (auto simp: AList.delete_eq)

lemma keeps_refl: "keeps renders item c c"
  by (simp add: keeps_def)

lemma keeps_trans: "keeps renders item c c1 \<Longrightarrow> keeps renders item c1 c2 \<Longrightarrow> keeps renders item c c2"
  by (auto simp: keeps_def)

lemma keeps_assembler: "keeps renders item c (c\<lparr>imageAssembler := a\<rparr>)"
  by (simp add: keeps_def undeferred_def rendered_def isPending_def)

lemma ownId_update:
  assumes "list_all (\<lambda>(k, v). node_id v = k) al" and "node_id node = k"
  shows "list_all (\<lambda>(k, v). node_id v = k) (AList.update k node al)"
  using assms set_update_subset [of k node al] by (auto simp: list_all_iff)

lemma ownId_delete:
  assumes "list_all (\<lambda>(k, v). node_id v = k) al"
  shows "list_all (\<lambda>(k, v). node_id v = k) (AList.delete k al)"
  using assms set_delete_subset [of k al] by (auto simp: list_all_iff)

lemma keeps_pending_update:
  assumes "node_id node = k" and "k \<noteq> node_id item"
  shows "keeps renders item c (c\<lparr>pendingImageNodes := AList.update k node (pendingImageNodes c)\<rparr>)"
  using assms
  by (simp add: keeps_def undeferred_def rendered_def isPending_def AList.update_conv' ownId_update)

lemma keeps_pending_delete:
  "keeps renders item c (c\<lparr>pendingImageNodes := AList.delete k (pendingImageNodes c)\<rparr>)"
  by (simp add: keeps_def undeferred_def rendered_def isPending_def AList.delete_conv' ownId_delete)

lemma keeps_recordCreated:
  assumes "node_id node = node_id item \<longrightarrow> node = item"
  shows "keeps renders item c (recordCreated c (node_id node) (createEnhancedNode renders node))"
proof (cases "renders node")
  case False
  then show ?thesis by (simp add: recordCreated_def createEnhancedNode_def keeps_refl)
next
  case True
  show ?thesis
  proof (cases "node_id node = node_id item")
    case same: True
    with assms have "node = item" by simp
    with True show ?thesis
      by (simp add: recordCreated_def createEnhancedNode_def keeps_def undeferred_def rendered_def
          isPending_def AList.update_conv')
  next
    case False
    with True show ?thesis
      by (simp add: recordCreated_def createEnhancedNode_def keeps_def undeferred_def rendered_def
          isPending_def AList.update_conv')
  qed
qed

lemma rendered_recordCreated:
  "rendered renders item (recordCreated c (node_id item) (createEnhancedNode renders item))"
  by (simp add: recordCreated_def createEnhancedNode_def rendered_def AList.update_conv')

lemma keeps_placeholderFor: "keeps renders item c (placeholderFor c i)"
proof (cases "map_of (pendingImageNodes c) i")
  case None
  then show ?thesis by (simp add: placeholderFor_def keeps_refl)
next
  case (Some node)
  show ?thesis
    unfolding keeps_def
  proof
    assume u: "undeferred renders item c"
    with Some have ne: "i \<noteq> node_id item" by (auto simp: undeferred_def isPending_def)
    from u have "list_all (\<lambda>(k, v). node_id v = k) (AList.delete i (pendingImageNodes c))"
      by (simp add: undeferred_def ownId_delete)
    with u Some ne
    show "undeferred renders item (placeholderFor c i)
        \<and> (rendered renders item c \<longrightarrow> rendered renders item (placeholderFor c i))"
      by (simp add: placeholderFor_def undeferred_def rendered_def isPending_def
          AList.update_conv' AList.delete_conv')
  qed
qed

lemma keeps_placeholders: "keeps renders item c (foldl placeholderFor c ids)"
proof (induction ids arbitrary: c)
  case Nil
  show ?case by (simp add: keeps_refl)
next
  case (Cons i ids)
  from keeps_placeholderFor [of renders item c i] Cons [of "placeholderFor c i"]
  show ?case by (simp add: keeps_trans)
qed

lemma keeps_sweep: "keeps renders item c (sweep c now)"
proof -
  obtain timedOut asm where cl: "cleanupTimedOut (imageAssembler c) now = (timedOut, asm)"
    by (cases "cleanupTimedOut (imageAssembler c) now")
  from keeps_assembler [of renders item c asm]
    keeps_placeholders [of renders item "c\<lparr>imageAssembler := asm\<rparr>" timedOut]
  show ?thesis by (simp add: sweep_def cl keeps_trans)
qed

lemma keeps_forcePlaceholders: "keeps renders item c (forcePlaceholders c)"
  by (simp add: forcePlaceholders_def keeps_refl keeps_placeholders)

lemma keeps_pollPending: "keeps renders item c (fst (pollPending c startTime now))"
  by (simp add: pollPending_def keeps_refl keeps_forcePlaceholders)

lemma pollPending_continuation:
  "snd (pollPending c startTime now) = Some t \<Longrightarrow> continuationOk item t \<and> remainingNodes t = []"
  by (auto simp: pollPending_def continuationOk_def remainingNodes_def onlyAs_def split: if_splits)

lemma undeferred_reset: "undeferred renders item (resetStreamState c)"
  by (simp add: resetStreamState_def undeferred_def isPending_def)

lemma createPendingImageNode_keeps:
  assumes "undeferred renders item c"
  shows "keeps renders item c (fst (createPendingImageNode c k))
       \<and> (\<forall>t. snd (createPendingImageNode c k) = Some t \<longrightarrow> continuationOk item t \<and> remainingNodes t = [])"
proof (cases "map_of (pendingImageNodes c) k")
  case None
  then show ?thesis by (simp add: createPendingImageNode_def keeps_refl)
next
  case (Some node)
  with assms have ne: "k \<noteq> node_id item" by (auto simp: undeferred_def isPending_def)
  from Some have "(k, node) \<in> set (pendingImageNodes c)" by (rule map_of_SomeD)
  with assms have own: "node_id node = k" by (auto simp: undeferred_def list_all_iff)
  obtain res asm where a: "assemble (imageAssembler c) k = (res, asm)"
    by (cases "assemble (imageAssembler c) k")
  show ?thesis
  proof (cases res)
    case (Assembled bytes)
    let ?node1 = "node\<lparr>imageData := Some (map uint bytes), imageChunkRef := None\<rparr>"
    let ?c1 = "c\<lparr>imageAssembler := asm\<rparr>"
    have r: "createPendingImageNode c k
        = (?c1\<lparr>pendingImageNodes := AList.update k ?node1 (pendingImageNodes ?c1)\<rparr>,
           Some (ImageAwait k ?node1))"
      using Some a Assembled by (simp add: createPendingImageNode_def Let_def)
    have "keeps renders item ?c1
            (?c1\<lparr>pendingImageNodes := AList.update k ?node1 (pendingImageNodes ?c1)\<rparr>)"
      using own ne by (intro keeps_pending_update) simp_all
    with keeps_assembler [of renders item c asm]
    have "keeps renders item c (fst (createPendingImageNode c k))"
      unfolding r fst_conv by (rule keeps_trans)
    moreover have "continuationOk item (ImageAwait k ?node1)" "remainingNodes (ImageAwait k ?node1) = []"
      using own ne by (simp_all add: continuationOk_def remainingNodes_def onlyAs_def)
    ultimately show ?thesis by (simp add: r)
  next
    case Null
    with Some a show ?thesis by (simp add: createPendingImageNode_def keeps_assembler)
  next
    case Thrown
    with Some a show ?thesis by (simp add: createPendingImageNode_def keeps_assembler)
  qed
qed

lemma handleImageChunk_keeps:
  assumes "undeferred renders item c"
  shows "keeps renders item c (fst (handleImageChunk c k chunkIndex total_chunks chunk_data now))
       \<and> (\<forall>t. snd (handleImageChunk c k chunkIndex total_chunks chunk_data now) = Some t \<longrightarrow>
              continuationOk item t \<and> remainingNodes t = [])"
proof -
  let ?c1 = "c\<lparr>imageAssembler := addChunk (imageAssembler c) k chunkIndex chunk_data total_chunks now\<rparr>"
  have k1: "keeps renders item c ?c1" by (rule keeps_assembler)
  with assms have u1: "undeferred renders item ?c1" by (simp add: keeps_def)
  show ?thesis
  proof (cases "isComplete (imageAssembler ?c1) k")
    case False
    then show ?thesis using k1 by (simp add: handleImageChunk_def Let_def)
  next
    case True
    then have r: "handleImageChunk c k chunkIndex total_chunks chunk_data now
        = createPendingImageNode ?c1 k"
      by (simp add: handleImageChunk_def Let_def)
    from createPendingImageNode_keeps [OF u1, of k] k1 show ?thesis
      unfolding r by (blast intro: keeps_trans)
  qed
qed

lemma handleStreamNodeBatch_keeps:
  assumes "undeferred renders item c" and "onlyAs item ns" and "\<not> isStreamedNode item"
  shows "keeps renders item c (fst (handleStreamNodeBatch c ns))
       \<and> (\<forall>t. snd (handleStreamNodeBatch c ns) = Some t \<longrightarrow> continuationOk item t)
       \<and> (if item \<in> set ns
          then \<exists>t. snd (handleStreamNodeBatch c ns) = Some t \<and> item \<in> set (remainingNodes t)
          else True)"
  using assms(1,2)
proof (induction ns arbitrary: c)
  case Nil
  show ?case by (simp add: keeps_refl)
next
  case (Cons node rest)
  from Cons.prems(2) have rest: "onlyAs item rest" by (simp add: onlyAs_def)
  show ?case
  proof (cases "isStreamedNode node")
    case False
    have "continuationOk item (NodesAwait node rest)"
      using Cons.prems(2) by (simp add: continuationOk_def remainingNodes_def)
    with False show ?thesis by (simp add: keeps_refl remainingNodes_def)
  next
    case True
    with assms(3) have ne: "node \<noteq> item" by auto
    with Cons.prems(2) have nid: "node_id node \<noteq> node_id item" by (auto simp: onlyAs_def)
    let ?c1 = "c\<lparr>pendingImageNodes := AList.update (node_id node) node (pendingImageNodes c)\<rparr>"
    have k1: "keeps renders item c ?c1"
      using nid by (intro keeps_pending_update) simp_all
    with Cons.prems(1) have u1: "undeferred renders item ?c1" by (simp add: keeps_def)
    from Cons.IH [OF u1 rest] k1 True ne show ?thesis
      by (auto intro: keeps_trans)
  qed
qed

lemma nodesOf_Cons: "set (nodesOf (m # ms)) = set (nodesOf [m]) \<union> set (nodesOf ms)"
  using nodesOf_append [of "[m]" ms] by simp

lemma noTokens_tokensBeforeNodes: "noTokens ms \<Longrightarrow> tokensBeforeNodes ms"
  by (induction ms rule: tokensBeforeNodes.induct) (simp_all add: noTokens_def)

lemma tokensBeforeNodes_tl: "tokensBeforeNodes (m # ms) \<Longrightarrow> tokensBeforeNodes ms"
  by (cases m) (simp_all add: noTokens_tokensBeforeNodes)

lemma onlyAs_Cons:
  "onlyAs item (nodesOf (m # ms)) \<Longrightarrow> onlyAs item (nodesOf [m]) \<and> onlyAs item (nodesOf ms)"
  using nodesOf_Cons [of m ms] by (auto simp: onlyAs_def)

lemma set_without_nth: "set (take k xs @ drop (Suc k) xs) \<subseteq> set xs"
  by (auto dest: in_set_takeD in_set_dropD)

lemma in_set_without_nth:
  assumes "x \<in> set xs" and "x \<noteq> xs ! k"
  shows "x \<in> set (take k xs @ drop (Suc k) xs)"
proof -
  from assms(1) obtain i where i: "i < length xs" "xs ! i = x"
    by (auto simp: in_set_conv_nth)
  with assms(2) have "i \<noteq> k" by auto
  then consider "i < k" | "k < i" by linarith
  then show ?thesis
  proof cases
    case 1
    with i have "x \<in> set (take k xs)"
      by (auto simp: in_set_conv_nth intro!: exI [of _ i])
    then show ?thesis by simp
  next
    case 2
    then obtain j where j: "i = Suc k + j" by (metis less_iff_Suc_add add_Suc)
    with i have "j < length (drop (Suc k) xs)" "drop (Suc k) xs ! j = x" by simp_all
    then have "x \<in> set (drop (Suc k) xs)" by (metis nth_mem)
    then show ?thesis by simp
  qed
qed

lemma onmessage_keeps:
  assumes u: "undeferred renders item c" and only: "onlyAs item (nodesOf [m])"
      and plain: "\<not> isStreamedNode item"
  shows "undeferred renders item (fst (onmessage c m t1 t2))"
    and "\<forall>t. snd (onmessage c m t1 t2) = Some t \<longrightarrow> continuationOk item t"
    and "\<not> isTokens m \<Longrightarrow> rendered renders item c \<Longrightarrow> rendered renders item (fst (onmessage c m t1 t2))"
    and "item \<in> set (nodesOf [m]) \<Longrightarrow>
           \<exists>t. snd (onmessage c m t1 t2) = Some t \<and> item \<in> set (remainingNodes t)"
proof -
  have "undeferred renders item (fst (onmessage c m t1 t2))
      \<and> (\<forall>t. snd (onmessage c m t1 t2) = Some t \<longrightarrow> continuationOk item t)
      \<and> (\<not> isTokens m \<longrightarrow> rendered renders item c \<longrightarrow> rendered renders item (fst (onmessage c m t1 t2)))
      \<and> (item \<in> set (nodesOf [m]) \<longrightarrow>
           (\<exists>t. snd (onmessage c m t1 t2) = Some t \<and> item \<in> set (remainingNodes t)))"
  proof (cases m)
    case (TOKENS t n)
    then show ?thesis by (simp add: onmessage_def undeferred_reset)
  next
    case (FONTS fs n)
    with u show ?thesis by (simp add: onmessage_def)
  next
    case (NODES ns n)
    with only have "onlyAs item ns" by simp
    from handleStreamNodeBatch_keeps [OF u this plain] u NODES show ?thesis
      by (auto simp: onmessage_def keeps_def split: if_splits)
  next
    case (IMAGE_CHUNK k chunkIndex total_chunks chunk_data n ts)
    from handleImageChunk_keeps [OF u, of k chunkIndex total_chunks chunk_data t1] u IMAGE_CHUNK
    show ?thesis by (auto simp: onmessage_def keeps_def)
  next
    case (PROGRESS stg current tot n)
    with u show ?thesis by (simp add: onmessage_def)
  next
    case (ERROR e n)
    with u show ?thesis by (simp add: onmessage_def)
  next
    case (COMPLETE tn ti ii si n)
    from keeps_pollPending [of renders item c t1 t2] pollPending_continuation [of c t1 t2 _ item] u COMPLETE
    show ?thesis by (auto simp: onmessage_def handleStreamComplete_def keeps_def)
  qed
  then show "undeferred renders item (fst (onmessage c m t1 t2))"
    and "\<forall>t. snd (onmessage c m t1 t2) = Some t \<longrightarrow> continuationOk item t"
    and "\<not> isTokens m \<Longrightarrow> rendered renders item c \<Longrightarrow> rendered renders item (fst (onmessage c m t1 t2))"
    and "item \<in> set (nodesOf [m]) \<Longrightarrow>
           \<exists>t. snd (onmessage c m t1 t2) = Some t \<and> item \<in> set (remainingNodes t)"
    by blast+
qed

lemma resume_keeps:
  assumes u: "undeferred renders item c" and ok: "continuationOk item t"
      and plain: "\<not> isStreamedNode item"
  shows "undeferred renders item (fst (resume renders c t t1 t2))"
    and "\<forall>t'. snd (resume renders c t t1 t2) = Some t' \<longrightarrow> continuationOk item t'"
    and "rendered renders item c \<Longrightarrow> rendered renders item (fst (resume renders c t t1 t2))"
    and "item \<in> set (remainingNodes t) \<Longrightarrow>
           (\<exists>t'. snd (resume renders c t t1 t2) = Some t' \<and> item \<in> set (remainingNodes t'))
           \<or> rendered renders item (fst (resume renders c t t1 t2))"
proof -
  have "undeferred renders item (fst (resume renders c t t1 t2))
      \<and> (\<forall>t'. snd (resume renders c t t1 t2) = Some t' \<longrightarrow> continuationOk item t')
      \<and> (rendered renders item c \<longrightarrow> rendered renders item (fst (resume renders c t t1 t2)))
      \<and> (item \<in> set (remainingNodes t) \<longrightarrow>
           (\<exists>t'. snd (resume renders c t t1 t2) = Some t' \<and> item \<in> set (remainingNodes t'))
           \<or> rendered renders item (fst (resume renders c t t1 t2)))"
  proof (cases t)
    case (NodesAwait node rest)
    let ?c1 = "recordCreated c (node_id node) (createEnhancedNode renders node)"
    from ok NodesAwait have only: "onlyAs item (node # rest)"
      by (simp add: continuationOk_def remainingNodes_def)
    then have same: "node_id node = node_id item \<longrightarrow> node = item" and rest: "onlyAs item rest"
      by (simp_all add: onlyAs_def)
    have k1: "keeps renders item c ?c1" using same by (rule keeps_recordCreated)
    with u have u1: "undeferred renders item ?c1" by (simp add: keeps_def)
    note b = handleStreamNodeBatch_keeps [OF u1 rest plain]
    have r: "resume renders c t t1 t2 = handleStreamNodeBatch ?c1 rest"
      by (simp add: resume_def NodesAwait resumeNodeBatch_def)
    from b have k2: "keeps renders item ?c1 (fst (handleStreamNodeBatch ?c1 rest))" by blast
    have ku: "undeferred renders item (fst (handleStreamNodeBatch ?c1 rest))"
      using k2 u1 by (simp add: keeps_def)
    have kr: "rendered renders item c \<longrightarrow> rendered renders item (fst (handleStreamNodeBatch ?c1 rest))"
      using k1 k2 u u1 by (simp add: keeps_def)
    have prog: "item \<in> set (remainingNodes t) \<longrightarrow>
           (\<exists>t'. snd (handleStreamNodeBatch ?c1 rest) = Some t' \<and> item \<in> set (remainingNodes t'))
           \<or> rendered renders item (fst (handleStreamNodeBatch ?c1 rest))"
    proof
      assume "item \<in> set (remainingNodes t)"
      with NodesAwait have "item = node \<or> item \<in> set rest" by (auto simp: remainingNodes_def)
      then show "(\<exists>t'. snd (handleStreamNodeBatch ?c1 rest) = Some t' \<and> item \<in> set (remainingNodes t'))
           \<or> rendered renders item (fst (handleStreamNodeBatch ?c1 rest))"
      proof
        assume "item = node"
        then have "rendered renders item ?c1" by (simp add: rendered_recordCreated)
        with k2 u1 show ?thesis by (simp add: keeps_def)
      next
        assume "item \<in> set rest"
        with b show ?thesis by (auto split: if_splits)
      qed
    qed
    from b ku kr prog show ?thesis unfolding r by blast
  next
    case (ImageAwait k node)
    let ?c1 = "recordCreated c (node_id node) (createEnhancedNode renders node)"
    from ok ImageAwait have ne: "node_id node \<noteq> node_id item" by (simp add: continuationOk_def)
    then have k1: "keeps renders item c ?c1" by (intro keeps_recordCreated) simp
    have k2: "keeps renders item ?c1
        (?c1\<lparr>pendingImageNodes := AList.delete k (pendingImageNodes ?c1)\<rparr>)"
      by (rule keeps_pending_delete)
    from keeps_trans [OF k1 k2] u ImageAwait show ?thesis
      by (simp add: resume_def resumePendingImageNode_def Let_def keeps_def remainingNodes_def)
  next
    case (CompleteWait startTime)
    have k: "keeps renders item c (fst (pollPending (sweep c t1) startTime t2))"
      using keeps_sweep [of renders item c t1]
        keeps_pollPending [of renders item "sweep c t1" startTime t2]
      by (rule keeps_trans)
    from k pollPending_continuation [of "sweep c t1" startTime t2 _ item] u CompleteWait
    show ?thesis
      by (auto simp: resume_def resumeComplete_def keeps_def remainingNodes_def)
  qed
  then show "undeferred renders item (fst (resume renders c t t1 t2))"
    and "\<forall>t'. snd (resume renders c t t1 t2) = Some t' \<longrightarrow> continuationOk item t'"
    and "rendered renders item c \<Longrightarrow> rendered renders item (fst (resume renders c t t1 t2))"
    and "item \<in> set (remainingNodes t) \<Longrightarrow>
           (\<exists>t'. snd (resume renders c t t1 t2) = Some t' \<and> item \<in> set (remainingNodes t'))
           \<or> rendered renders item (fst (resume renders c t t1 t2))"
    by blast+
qed

lemma settle_simps:
  "globals (settle el r) = fst r"
  "inbox (settle el r) = inbox el"
  "suspended (settle el r) = suspended el @ (case snd r of None \<Rightarrow> [] | Some t \<Rightarrow> [t])"
  by (simp_all add: settle_def)

lemma plainInvariant_deliver:
  assumes inv: "plainInvariant renders item el" and plain: "\<not> isStreamedNode item"
  shows "plainInvariant renders item (step renders el (Deliver t1 t2))"
proof (cases "inbox el")
  case Nil
  with inv show ?thesis by simp
next
  case (Cons m rest)
  define r where "r = onmessage (globals el) m t1 t2"
  have st: "step renders el (Deliver t1 t2) = settle (el\<lparr>inbox := rest\<rparr>) r"
    by (simp add: Cons r_def)
  from inv have u: "undeferred renders item (globals el)"
    and ts: "list_all (continuationOk item) (suspended el)"
    and only: "onlyAs item (nodesOf (m # rest))"
    and tb: "tokensBeforeNodes (m # rest)"
    and prog: "item \<in> set (nodesOf (m # rest))
         \<or> noTokens (m # rest)
           \<and> ((\<exists>t \<in> set (suspended el). item \<in> set (remainingNodes t))
              \<or> rendered renders item (globals el))"
    by (simp_all add: plainInvariant_def Cons)
  from onlyAs_Cons [OF only] have om: "onlyAs item (nodesOf [m])" and orest: "onlyAs item (nodesOf rest)"
    by simp_all
  note k = onmessage_keeps [OF u om plain, of t1 t2, folded r_def]
  have u': "undeferred renders item (fst r)" by (rule k(1))
  have ts': "list_all (continuationOk item) (suspended el @ (case snd r of None \<Rightarrow> [] | Some t \<Rightarrow> [t]))"
    using ts k(2) by (cases "snd r") simp_all
  have tb': "tokensBeforeNodes rest" using tb by (rule tokensBeforeNodes_tl)
  have prog': "item \<in> set (nodesOf rest)
         \<or> noTokens rest
           \<and> ((\<exists>t \<in> set (suspended el @ (case snd r of None \<Rightarrow> [] | Some t \<Rightarrow> [t])).
                  item \<in> set (remainingNodes t))
              \<or> rendered renders item (fst r))"
  proof (cases "item \<in> set (nodesOf rest)")
    case True
    then show ?thesis by simp
  next
    case notlater: False
    show ?thesis
    proof (cases "item \<in> set (nodesOf [m])")
      case True
      then obtain ns n where m: "m = NODES ns n" by (cases m) simp_all
      with tb have nt: "noTokens rest" by simp
      from k(4) [OF True] obtain t where "snd r = Some t" "item \<in> set (remainingNodes t)" by blast
      with nt show ?thesis by simp
    next
      case False
      with notlater have "item \<notin> set (nodesOf (m # rest))"
        using nodesOf_Cons [of m rest] by simp
      with prog have nt: "noTokens (m # rest)"
        and d: "(\<exists>t \<in> set (suspended el). item \<in> set (remainingNodes t))
              \<or> rendered renders item (globals el)"
        by simp_all
      from nt have ntm: "\<not> isTokens m" and ntr: "noTokens rest" by (simp_all add: noTokens_def)
      from d k(3) [OF ntm] ntr show ?thesis by auto
    qed
  qed
  from u' ts' orest tb' prog' show ?thesis
    unfolding st by (simp add: plainInvariant_def settle_simps)
qed

lemma plainInvariant_resume:
  assumes inv: "plainInvariant renders item el" and plain: "\<not> isStreamedNode item"
  shows "plainInvariant renders item (step renders el (Resume k t1 t2))"
proof (cases "k < length (suspended el)")
  case False
  with inv show ?thesis by simp
next
  case True
  define t where "t = suspended el ! k"
  define others where "others = take k (suspended el) @ drop (Suc k) (suspended el)"
  define r where "r = resume renders (globals el) t t1 t2"
  have st: "step renders el (Resume k t1 t2) = settle (el\<lparr>suspended := others\<rparr>) r"
    using True by (simp add: r_def t_def others_def)
  from inv have u: "undeferred renders item (globals el)"
    and ts: "list_all (continuationOk item) (suspended el)"
    and only: "onlyAs item (nodesOf (inbox el))"
    and tb: "tokensBeforeNodes (inbox el)"
    and prog: "item \<in> set (nodesOf (inbox el))
         \<or> noTokens (inbox el)
           \<and> ((\<exists>t \<in> set (suspended el). item \<in> set (remainingNodes t))
              \<or> rendered renders item (globals el))"
    by (simp_all add: plainInvariant_def)
  from True have tin: "t \<in> set (suspended el)" by (simp add: t_def)
  with ts have ok: "continuationOk item t" by (simp add: list_all_iff)
  have sub: "set others \<subseteq> set (suspended el)"
    unfolding others_def by (rule set_without_nth)
  with ts have tso: "list_all (continuationOk item) others" by (auto simp: list_all_iff)
  note k = resume_keeps [OF u ok plain, of t1 t2, folded r_def]
  have ts': "list_all (continuationOk item) (others @ (case snd r of None \<Rightarrow> [] | Some t \<Rightarrow> [t]))"
    using tso k(2) by (cases "snd r") simp_all
  have prog': "item \<in> set (nodesOf (inbox el))
         \<or> noTokens (inbox el)
           \<and> ((\<exists>t \<in> set (others @ (case snd r of None \<Rightarrow> [] | Some t \<Rightarrow> [t])).
                  item \<in> set (remainingNodes t))
              \<or> rendered renders item (fst r))"
  proof (cases "item \<in> set (nodesOf (inbox el))")
    case True
    then show ?thesis by simp
  next
    case False
    with prog have nt: "noTokens (inbox el)"
      and d: "(\<exists>t \<in> set (suspended el). item \<in> set (remainingNodes t))
              \<or> rendered renders item (globals el)"
      by simp_all
    show ?thesis
    proof (cases "item \<in> set (remainingNodes t)")
      case True
      from k(4) [OF True] nt show ?thesis by auto
    next
      case nothere: False
      from d show ?thesis
      proof
        assume "\<exists>t \<in> set (suspended el). item \<in> set (remainingNodes t)"
        then obtain t' where t': "t' \<in> set (suspended el)" "item \<in> set (remainingNodes t')" by blast
        with nothere have "t' \<noteq> suspended el ! k" by (auto simp: t_def)
        with t'(1) have "t' \<in> set others"
          unfolding others_def by (rule in_set_without_nth)
        with t'(2) nt show ?thesis by auto
      next
        assume "rendered renders item (globals el)"
        with k(3) nt show ?thesis by simp
      qed
    qed
  qed
  from k(1) ts' only tb prog' show ?thesis
    unfolding st by (simp add: plainInvariant_def settle_simps)
qed

lemma plainInvariant_run:
  assumes "plainInvariant renders item el" and "\<not> isStreamedNode item"
  shows "plainInvariant renders item (run renders el turns)"
  using assms(1) unfolding run_def
proof (induction turns arbitrary: el)
  case Nil
  then show ?case by simp
next
  case (Cons turn turns)
  have "plainInvariant renders item (step renders el turn)"
  proof (cases turn)
    case (Deliver t1 t2)
    from plainInvariant_deliver [OF Cons.prems assms(2)] show ?thesis unfolding Deliver .
  next
    case (Resume k t1 t2)
    from plainInvariant_resume [OF Cons.prems assms(2)] show ?thesis unfolding Resume .
  qed
  from Cons.IH [OF this] show ?case by simp
qed

lemma plainInvariant_start:
  assumes "onlyAs item (nodesOf msgs)" and "tokensBeforeNodes msgs"
      and "item \<in> set (nodesOf msgs)"
  shows "plainInvariant renders item (startLoop msgs)"
  using assms
  by (simp add: plainInvariant_def startLoop_def undeferred_def isPending_def newConsumer_def)

lemma plainInvariant_result:
  assumes "plainInvariant renders item el"
  shows "\<not> isPending (globals el) (node_id item)"
    and "\<not> hasPlaceholder (globals el) (node_id item)"
    and "finished el \<Longrightarrow> renders item \<Longrightarrow>
           map_of (streamCreatedNodes (globals el)) (node_id item) = Some (Rendered item)"
proof -
  from assms have u: "undeferred renders item (globals el)" by (simp add: plainInvariant_def)
  then show "\<not> isPending (globals el) (node_id item)" by (simp add: undeferred_def)
  from u show "\<not> hasPlaceholder (globals el) (node_id item)"
    by (auto simp: undeferred_def hasPlaceholder_def)
  assume "finished el" and "renders item"
  with assms show "map_of (streamCreatedNodes (globals el)) (node_id item) = Some (Rendered item)"
    by (simp add: plainInvariant_def finished_def rendered_def)
qed

section \<open>An item whose fetch fails, at the consumer\<close>

lemma isLater_noTokens: "list_all isLater ms \<Longrightarrow> noTokens ms"
proof (induction ms)
  case Nil
  show ?case by (simp add: noTokens_def)
next
  case (Cons m ms)
  then show ?case by (cases m) (simp_all add: noTokens_def)
qed

lemma tokensBeforeNodes_progress:
  "list_all isProcessingProgress ps \<Longrightarrow> tokensBeforeNodes (ps @ ms) = tokensBeforeNodes ms"
proof (induction ps)
  case Nil
  show ?case by simp
next
  case (Cons e ps)
  then show ?case by (cases e rule: isProcessingProgress.cases) simp_all
qed

lemma session_inbox:
  assumes run: "streamExtractedPage f cfg tstamp (newController True) payload = Some ctl'"
      and mem: "node \<in> set (nodes payload)"
      and dist: "distinct (map node_id (nodes payload))"
  shows "tokensBeforeNodes (sent ctl')"
    and "onlyAs (processedNode f cfg (attachImageSource node)) (nodesOf (sent ctl'))"
proof -
  let ?P = "\<lambda>n. processedNode f cfg (attachImageSource n)"
  let ?ns1 = "map (processedNode f cfg) (attachImageSources (nodes payload))"
  have opn: "ws_open (newController True)" and nil: "sent (newController True) = []"
    by (simp_all add: newController_def)
  from session_trace [OF run opn] obtain ps tk later sq where
    tr: "sent ctl' = sent (newController True) @ ps @ tk @ later"
      "list_all isProcessingProgress ps"
      "tk = (case tokens payload of None \<Rightarrow> [] | Some t \<Rightarrow> [TOKENS t sq])"
      "list_all isLater later"
      "nodesOf later = ?ns1"
    by blast
  have "tokensBeforeNodes (tk @ later)"
    using isLater_noTokens [OF tr(4)]
    by (simp add: tr(3) noTokens_tokensBeforeNodes split: option.splits)
  then show "tokensBeforeNodes (sent ctl')"
    by (simp add: tr(1) nil tokensBeforeNodes_progress [OF tr(2)])
  have tk: "nodesOf tk = []" by (simp add: tr(3) split: option.splits)
  have nodes: "nodesOf (sent ctl') = map ?P (nodes payload)"
    using processingProgress_only [OF tr(2)] tk
    by (simp add: tr(1,5) nil nodesOf_append attachImageSources_def)
  show "onlyAs (?P node) (nodesOf (sent ctl'))"
    unfolding onlyAs_def nodes
  proof (intro ballI impI)
    fix n assume "n \<in> set (map ?P (nodes payload))" and same: "node_id n = node_id (?P node)"
    then obtain m where m: "m \<in> set (nodes payload)" and n: "n = ?P m" by auto
    with same have "node_id m = node_id node" by (simp add: node_id_processed)
    with m mem dist have "m = node" by (meson distinct_map inj_on_def)
    with n show "n = ?P node" by simp
  qed
qed

lemma example_failed_run:
  "run alwaysRenders
     (startLoop [PROGRESS processing_images 1 1 0,
        NODES [(imageNode ''pic'' ''gone'')
                 \<lparr>imageSource := Some \<lparr>originalUrl = ''gone'', resolvedUrl = ''gone''\<rparr>,
                   imageProcessing := Some \<lparr>ip_originalFormat = ''unknown'',
                      ip_convertedFormat = None, wasConverted = False,
                      processingError = Some ''HTTP 404: Not Found''\<rparr>\<rparr>] 1,
        COMPLETE 1 1 0 0 2])
     [Deliver 1000 1000, Deliver 1010 1010, Resume 0 1020 1020, Deliver 1100 1100]
   = \<lparr>globals = \<lparr>imageAssembler = [], pendingImageNodes = [],
         streamCreatedNodes = [(''pic'', Rendered ((imageNode ''pic'' ''gone'')
                 \<lparr>imageSource := Some \<lparr>originalUrl = ''gone'', resolvedUrl = ''gone''\<rparr>,
                   imageProcessing := Some \<lparr>ip_originalFormat = ''unknown'',
                      ip_convertedFormat = None, wasConverted = False,
                      processingError = Some ''HTTP 404: Not Found''\<rparr>\<rparr>))],
         totalStreamNodesProcessed = 1\<rparr>,
      suspended = [], inbox = []\<rparr>"
proof -
  let ?n = "(imageNode ''pic'' ''gone'')
                 \<lparr>imageSource := Some \<lparr>originalUrl = ''gone'', resolvedUrl = ''gone''\<rparr>,
                   imageProcessing := Some \<lparr>ip_originalFormat = ''unknown'',
                      ip_convertedFormat = None, wasConverted = False,
                      processingError = Some ''HTTP 404: Not Found''\<rparr>\<rparr>"
  let ?k = "\<lparr>imageAssembler = [], pendingImageNodes = [],
             streamCreatedNodes = [(''pic'', Rendered ?n)], totalStreamNodesProcessed = 1\<rparr>"
  let ?s0 = "startLoop [PROGRESS processing_images 1 1 0, NODES [?n] 1, COMPLETE 1 1 0 0 2]"
  let ?s1 = "\<lparr>globals = newConsumer, suspended = [], inbox = [NODES [?n] 1, COMPLETE 1 1 0 0 2]\<rparr>"
  let ?s2 = "\<lparr>globals = newConsumer, suspended = [NodesAwait ?n []], inbox = [COMPLETE 1 1 0 0 2]\<rparr>"
  let ?s3 = "\<lparr>globals = ?k, suspended = [], inbox = [COMPLETE 1 1 0 0 2]\<rparr>"
  let ?s4 = "\<lparr>globals = ?k, suspended = [], inbox = []\<rparr>"
  have t1: "step alwaysRenders ?s0 (Deliver 1000 1000) = ?s1"
    by (simp add: startLoop_def onmessage_def settle_def)
  have t2: "step alwaysRenders ?s1 (Deliver 1010 1010) = ?s2"
    by (simp add: onmessage_def settle_def isStreamedNode_def imageNode_def)
  have t3: "step alwaysRenders ?s2 (Resume 0 1020 1020) = ?s3"
    by (simp add: resume_def resumeNodeBatch_def settle_def recordCreated_def
        createEnhancedNode_def alwaysRenders_def newConsumer_def imageNode_def)
  have t4: "step alwaysRenders ?s3 (Deliver 1100 1100) = ?s4"
    by (simp add: onmessage_def handleStreamComplete_def pollPending_def forcePlaceholders_def
        settle_def)
  show ?thesis
    unfolding run_def by (simp only: foldl.simps t1 t2 t3 t4)
qed

text \<open>
  Claim C5 says that the consumer's finalization produces a placeholder for an item
  whose fetch failed. In the example session with one image item whose fetch fails,
  run from end to end (the handler of the \<open>NODES\<close> batch is resumed before
  \<open>COMPLETE\<close> arrives), the consumer ends with the object that \<open>createEnhancedNode\<close>
  built for the item, with nothing pending, no handler waiting and no placeholder: the
  item carries no chunk reference, so it is never pending.
\<close>

theorem failed_fetch_placeholder_counterexample:
  "endToEnd exampleFetch exampleConfig exampleClock alwaysRenders
     \<lparr>nodes = [imageNode ''pic'' ''gone''], fonts = [], tokens = None\<rparr>
     [Deliver 1000 1000, Deliver 1010 1010, Resume 0 1020 1020, Deliver 1100 1100]
   = Some \<lparr>globals = \<lparr>imageAssembler = [], pendingImageNodes = [],
         streamCreatedNodes = [(''pic'', Rendered ((imageNode ''pic'' ''gone'')
                 \<lparr>imageSource := Some \<lparr>originalUrl = ''gone'', resolvedUrl = ''gone''\<rparr>,
                   imageProcessing := Some \<lparr>ip_originalFormat = ''unknown'',
                      ip_convertedFormat = None, wasConverted = False,
                      processingError = Some ''HTTP 404: Not Found''\<rparr>\<rparr>))],
         totalStreamNodesProcessed = 1\<rparr>,
      suspended = [], inbox = []\<rparr>"
  unfolding endToEnd_def example_failed_session option.case StreamController.select_convs
  by (simp only: example_failed_run)

text \<open>
  Claim C5, amended. Let a session's payload hold an image item with a URL whose fetch
  fails entirely, the item arriving without a chunk reference and the ids of the items
  being distinct. The session returns when the chunk size is positive and no item
  arrives with an infinite chunk count. In every session that returns: the item is in a
  \<open>NODES\<close> batch, without a chunk reference; no \<open>IMAGE_CHUNK\<close> envelope is sent for
  its id; the consumer does not defer it: whatever the order in which the event loop
  handles the messages and resumes the handlers, at no turn is the id pending or
  replaced by a placeholder, and once all messages are handled and no handler waits, the
  object that \<open>createEnhancedNode\<close> built from the item stands under its id (if its
  rendering succeeds); the session ends with \<open>COMPLETE\<close>, whose inline and streamed
  counts together are below \<open>totalImages\<close>, and \<open>failedImages\<close> is not zero.
\<close>

theorem failed_fetch_never_deferred:
  assumes "node \<in> set (nodes payload)"
      and "node_type node = IMAGE" and "node_image node = Some img" and "url img \<noteq> []"
      and "fetchFails f (url img)"
      and "imageChunkRef node = None"
      and "distinct (map node_id (nodes payload))"
      and "sentNode = processedNode f cfg (attachImageSource node)"
  shows "(0 < IMAGE_CHUNK_SIZE cfg \<and> list_all finiteChunkRef (nodes payload) \<longrightarrow>
            (\<exists>ctl'. streamExtractedPage f cfg tstamp (newController True) payload = Some ctl'))
       \<and> (\<forall>ctl'. streamExtractedPage f cfg tstamp (newController True) payload = Some ctl' \<longrightarrow>
            sentNode \<in> set (nodesOf (sent ctl'))
          \<and> node_id sentNode = node_id node \<and> imageChunkRef sentNode = None
          \<and> chunkIndicesOf (node_id node) (sent ctl') = []
          \<and> (\<forall>renders turns el.
                 el = run renders (startLoop (sent ctl')) turns \<longrightarrow>
                 \<not> isPending (globals el) (node_id node)
               \<and> \<not> hasPlaceholder (globals el) (node_id node)
               \<and> (finished el \<and> renders sentNode \<longrightarrow>
                    map_of (streamCreatedNodes (globals el)) (node_id node)
                      = Some (Rendered sentNode)))
          \<and> (\<exists>lt sq. sent ctl' = lt @ [COMPLETE (length (nodes payload)) (totalImages (stats ctl'))
                               (inlineImages (stats ctl')) (streamedImages (stats ctl')) sq])
          \<and> inlineImages (stats ctl') + streamedImages (stats ctl') < totalImages (stats ctl')
          \<and> 0 < failedImages (stats ctl'))"
proof -
  have returns: "0 < IMAGE_CHUNK_SIZE cfg \<and> list_all finiteChunkRef (nodes payload) \<longrightarrow>
            (\<exists>ctl'. streamExtractedPage f cfg tstamp (newController True) payload = Some ctl')"
  proof
    assume "0 < IMAGE_CHUNK_SIZE cfg \<and> list_all finiteChunkRef (nodes payload)"
    moreover have "ws_open (newController True)" by (simp add: newController_def)
    ultimately show "\<exists>ctl'. streamExtractedPage f cfg tstamp (newController True) payload = Some ctl'"
      using session_returns [of cfg payload "newController True" f tstamp] by blast
  qed
  have "sentNode \<in> set (nodesOf (sent ctl'))
          \<and> node_id sentNode = node_id node \<and> imageChunkRef sentNode = None
          \<and> chunkIndicesOf (node_id node) (sent ctl') = []
          \<and> (\<forall>renders turns el.
                 el = run renders (startLoop (sent ctl')) turns \<longrightarrow>
                 \<not> isPending (globals el) (node_id node)
               \<and> \<not> hasPlaceholder (globals el) (node_id node)
               \<and> (finished el \<and> renders sentNode \<longrightarrow>
                    map_of (streamCreatedNodes (globals el)) (node_id node)
                      = Some (Rendered sentNode)))
          \<and> (\<exists>lt sq. sent ctl' = lt @ [COMPLETE (length (nodes payload)) (totalImages (stats ctl'))
                               (inlineImages (stats ctl')) (streamedImages (stats ctl')) sq])
          \<and> inlineImages (stats ctl') + streamedImages (stats ctl') < totalImages (stats ctl')
          \<and> 0 < failedImages (stats ctl')"
    if run: "streamExtractedPage f cfg tstamp (newController True) payload = Some ctl'" for ctl'
  proof -
  note facts = failed_fetch_session [OF run assms(1-7)]
  note inb = session_inbox [OF run assms(1,7)]
  have proc: "sentNode = node\<lparr>imageSource := Some \<lparr>originalUrl = url img, resolvedUrl = url img\<rparr>,
                   imageProcessing := Some
                     \<lparr>ip_originalFormat = orUnknown (originalFormat (f (url img))),
                      ip_convertedFormat = None, wasConverted = False,
                      processingError = error (f (url img))\<rparr>\<rparr>"
    unfolding assms(8) using assms(2-5) by (rule failed_item_processed(3))
  have id: "node_id sentNode = node_id node" and ref: "imageChunkRef sentNode = None"
    by (simp_all add: proc assms(6))
  have plain: "\<not> isStreamedNode sentNode" by (simp add: isStreamedNode_def ref)
  have mem: "sentNode \<in> set (nodesOf (sent ctl'))" using facts(1) by (simp add: assms(8))
  have cons: "\<forall>renders turns el.
              el = run renders (startLoop (sent ctl')) turns \<longrightarrow>
              \<not> isPending (globals el) (node_id node)
            \<and> \<not> hasPlaceholder (globals el) (node_id node)
            \<and> (finished el \<and> renders sentNode \<longrightarrow>
                 map_of (streamCreatedNodes (globals el)) (node_id node) = Some (Rendered sentNode))"
  proof (intro allI impI)
    fix renders turns el
    assume el: "el = run renders (startLoop (sent ctl')) turns"
    have "plainInvariant renders sentNode (startLoop (sent ctl'))"
      using inb(2) inb(1) mem unfolding assms(8) [symmetric] by (rule plainInvariant_start)
    then have "plainInvariant renders sentNode el"
      unfolding el using plain by (rule plainInvariant_run)
    from plainInvariant_result [OF this] show
      "\<not> isPending (globals el) (node_id node)
            \<and> \<not> hasPlaceholder (globals el) (node_id node)
            \<and> (finished el \<and> renders sentNode \<longrightarrow>
                 map_of (streamCreatedNodes (globals el)) (node_id node) = Some (Rendered sentNode))"
      by (simp add: id)
  qed
  show "sentNode \<in> set (nodesOf (sent ctl'))
          \<and> node_id sentNode = node_id node \<and> imageChunkRef sentNode = None
          \<and> chunkIndicesOf (node_id node) (sent ctl') = []
          \<and> (\<forall>renders turns el.
                 el = run renders (startLoop (sent ctl')) turns \<longrightarrow>
                 \<not> isPending (globals el) (node_id node)
               \<and> \<not> hasPlaceholder (globals el) (node_id node)
               \<and> (finished el \<and> renders sentNode \<longrightarrow>
                    map_of (streamCreatedNodes (globals el)) (node_id node)
                      = Some (Rendered sentNode)))
          \<and> (\<exists>lt sq. sent ctl' = lt @ [COMPLETE (length (nodes payload)) (totalImages (stats ctl'))
                               (inlineImages (stats ctl')) (streamedImages (stats ctl')) sq])
          \<and> inlineImages (stats ctl') + streamedImages (stats ctl') < totalImages (stats ctl')
          \<and> 0 < failedImages (stats ctl')"
    using mem id ref facts(3) cons facts(4,5,6)
    by (intro conjI) assumption+
  qed
  with returns show ?thesis by blast
qed

theorem failed_fetch_never_deferred_witness:
  "fetchFails exampleFetch ''gone''
   \<and> (\<exists>ctl' el.
        streamExtractedPage exampleFetch exampleConfig exampleClock (newController True)
          \<lparr>nodes = [imageNode ''pic'' ''gone''], fonts = [], tokens = None\<rparr> = Some ctl'
      \<and> chunkIndicesOf ''pic'' (sent ctl') = []
      \<and> 0 < failedImages (stats ctl')
      \<and> el = run alwaysRenders (startLoop (sent ctl'))
                [Deliver 1000 1000, Deliver 1010 1010, Resume 0 1020 1020, Deliver 1100 1100]
      \<and> finished el
      \<and> \<not> isPending (globals el) ''pic'' \<and> \<not> hasPlaceholder (globals el) ''pic''
      \<and> map_of (streamCreatedNodes (globals el)) ''pic''
          = Some (Rendered (processedNode exampleFetch exampleConfig
                              (attachImageSource (imageNode ''pic'' ''gone'')))))"
proof -
  let ?p = "\<lparr>nodes = [imageNode ''pic'' ''gone''], fonts = [], tokens = None\<rparr>"
  let ?img = "\<lparr>url = ''gone'', data = None\<rparr>"
  let ?turns = "[Deliver 1000 1000, Deliver 1010 1010, Resume 0 1020 1020, Deliver 1100 1100]"
  let ?sn = "processedNode exampleFetch exampleConfig (attachImageSource (imageNode ''pic'' ''gone''))"
  have h: "imageNode ''pic'' ''gone'' \<in> set (nodes ?p)"
      "node_type (imageNode ''pic'' ''gone'') = IMAGE"
      "node_image (imageNode ''pic'' ''gone'') = Some ?img" "url ?img \<noteq> []"
      "fetchFails exampleFetch (url ?img)"
      "imageChunkRef (imageNode ''pic'' ''gone'') = None"
      "distinct (map node_id (nodes ?p))"
    by (simp_all add: imageNode_def fetchFails_def exampleFetch_def)
  have tot: "0 < IMAGE_CHUNK_SIZE exampleConfig \<and> list_all finiteChunkRef (nodes ?p)"
    by (simp add: exampleConfig_def finiteChunkRef_def imageNode_def)
  have id: "node_id (imageNode ''pic'' ''gone'') = ''pic''" by (simp add: imageNode_def)
  note main = failed_fetch_never_deferred [where f = exampleFetch and tstamp = exampleClock
      and cfg = exampleConfig, OF h refl]
  from main tot obtain ctl' where
    run: "streamExtractedPage exampleFetch exampleConfig exampleClock (newController True) ?p
            = Some ctl'"
    by blast
  with main have idx: "chunkIndicesOf (node_id (imageNode ''pic'' ''gone'')) (sent ctl') = []"
    and failed: "0 < failedImages (stats ctl')"
    and cons: "\<forall>renders turns el.
              el = run renders (startLoop (sent ctl')) turns \<longrightarrow>
              \<not> isPending (globals el) (node_id (imageNode ''pic'' ''gone''))
            \<and> \<not> hasPlaceholder (globals el) (node_id (imageNode ''pic'' ''gone''))
            \<and> (finished el \<and> renders ?sn \<longrightarrow>
                 map_of (streamCreatedNodes (globals el)) (node_id (imageNode ''pic'' ''gone''))
                   = Some (Rendered ?sn))"
    by blast+
  from run have tr: "sent ctl' = [PROGRESS processing_images 1 1 0,
        NODES [(imageNode ''pic'' ''gone'')
                 \<lparr>imageSource := Some \<lparr>originalUrl = ''gone'', resolvedUrl = ''gone''\<rparr>,
                   imageProcessing := Some \<lparr>ip_originalFormat = ''unknown'',
                      ip_convertedFormat = None, wasConverted = False,
                      processingError = Some ''HTTP 404: Not Found''\<rparr>\<rparr>] 1,
        COMPLETE 1 1 0 0 2]"
    unfolding example_failed_session by auto
  have fin: "finished (run alwaysRenders (startLoop (sent ctl')) ?turns)"
    unfolding tr example_failed_run by (simp add: finished_def)
  have r: "alwaysRenders ?sn" by (simp add: alwaysRenders_def)
  from cons [rule_format, OF refl, of alwaysRenders ?turns] fin r idx failed run h(5) show ?thesis
    by (simp add: id)
qed

section \<open>A batch handler that is overtaken by the end of the stream\<close>

lemma example_race_session:
  "streamExtractedPage exampleFetch exampleConfig exampleClock (newController True)
        \<lparr>nodes = [frameNode ''box'', imageNode ''pic'' ''big''], fonts = [], tokens = Some ''tok''\<rparr>
   = Some \<lparr>sequenceNumber = 8,
       stats = \<lparr>totalImages = 1, inlineImages = 0, streamedImages = 1, failedImages = 0,
                 totalBytesProcessed = 5\<rparr>,
       totalNodes = 2, ws_open = True,
       sent = [PROGRESS processing_images 1 1 0, TOKENS ''tok'' 1,
               NODES [frameNode ''box'',
                 (imageNode ''pic'' ''big'')
                 \<lparr>imageSource := Some \<lparr>originalUrl = ''big'', resolvedUrl = ''big''\<rparr>,
                   imageChunkRef := Some \<lparr>totalSize = 5, ref_totalChunks = Num 3, chunkSize = 2,
                      isStreamed = True\<rparr>,
                   imageBuffer := Some [1, 2, 3, 4, 5],
                   imageProcessing := Some \<lparr>ip_originalFormat = ''png'',
                      ip_convertedFormat = Some ''png'', wasConverted = False,
                      processingError = None\<rparr>\<rparr>] 2,
               IMAGE_CHUNK ''pic'' 0 3 [1, 2] 3 1003, IMAGE_CHUNK ''pic'' 1 3 [3, 4] 4 1004,
               IMAGE_CHUNK ''pic'' 2 3 [5] 5 1005, PROGRESS streaming_images 1 1 6,
               COMPLETE 2 1 0 1 7]\<rparr>"
proof -
  let ?p = "\<lparr>nodes = [frameNode ''box'', imageNode ''pic'' ''big''], fonts = [], tokens = Some ''tok''\<rparr>"
  let ?st = "\<lparr>totalImages = 1, inlineImages = 0, streamedImages = 1, failedImages = 0,
                 totalBytesProcessed = 5\<rparr>"
  let ?ref = "\<lparr>totalSize = 5, ref_totalChunks = Num 3, chunkSize = 2, isStreamed = True\<rparr>"
  let ?n = "(imageNode ''pic'' ''big'')
                 \<lparr>imageSource := Some \<lparr>originalUrl = ''big'', resolvedUrl = ''big''\<rparr>,
                   imageChunkRef := Some ?ref,
                   imageBuffer := Some [1, 2, 3, 4, 5],
                   imageProcessing := Some \<lparr>ip_originalFormat = ''png'',
                      ip_convertedFormat = Some ''png'', wasConverted = False,
                      processingError = None\<rparr>\<rparr>"
  let ?ns = "[frameNode ''box'', ?n]"
  let ?t1 = "[PROGRESS processing_images 1 1 0]"
  let ?t2 = "?t1 @ [TOKENS ''tok'' 1]"
  let ?t4 = "?t2 @ [NODES ?ns 2]"
  let ?t5 = "?t4 @ [IMAGE_CHUNK ''pic'' 0 3 [1, 2] 3 1003, IMAGE_CHUNK ''pic'' 1 3 [3, 4] 4 1004,
               IMAGE_CHUNK ''pic'' 2 3 [5] 5 1005, PROGRESS streaming_images 1 1 6]"
  let ?c1 = "\<lparr>sequenceNumber = 1, stats = ?st, totalNodes = 2, ws_open = True, sent = ?t1\<rparr>"
  let ?c2 = "\<lparr>sequenceNumber = 2, stats = ?st, totalNodes = 2, ws_open = True, sent = ?t2\<rparr>"
  let ?c4 = "\<lparr>sequenceNumber = 3, stats = ?st, totalNodes = 2, ws_open = True, sent = ?t4\<rparr>"
  let ?c5 = "\<lparr>sequenceNumber = 7, stats = ?st, totalNodes = 2, ws_open = True, sent = ?t5\<rparr>"
  have a: "processAllImages exampleFetch exampleConfig
             (newController True\<lparr>totalNodes := length (nodes ?p)\<rparr>)
             (attachImageSources (nodes ?p)) = (?c1, ?ns)"
    by (simp add: attachImageSources_def attachImageSource_def processAllImages_def
        processWaves.simps processOne_def processImageForNode_def applyResult_def
        deleteImageData_def isImageWithSource_def orUnknown_def sendProgress_def
        sendNumbered_def send_def slice_def newController_def initialStats_def Let_def
        exampleFetch_def exampleConfig_def imageNode_def frameNode_def CONFIG_default_def
        ceil_div_def)
  have b: "(case tokens ?p of None \<Rightarrow> ?c1 | Some t \<Rightarrow> sendNumbered ?c1 (TOKENS t)) = ?c2"
    by (simp add: sendNumbered_def send_def)
  have c: "(if fonts ?p \<noteq> [] then sendNumbered ?c2 (FONTS (fonts ?p)) else ?c2) = ?c2"
    by simp
  have d: "streamNodes ?c2 ?ns = ?c4"
    by (simp add: streamNodes_def streamNodesFrom.simps BATCH_SIZE_def cloneForTransport_def
        sendNumbered_def send_def slice_def)
  have three: "[0 ..< 3] = [0, 1, 2 :: nat]" by (simp add: upt_rec)
  have e: "streamImageChunks exampleClock exampleConfig ?c4 ?ns = Some ?c5"
    by (simp add: streamImageChunks_def streamedRef_def List.map_filter_def imageNode_def
        frameNode_def streamNodeChunks_def three sendChunk_def sendProgress_def sendNumbered_def
        send_def slice_def exampleConfig_def exampleClock_def Let_def)
  show ?thesis
    unfolding session_steps [OF a b c d e]
    by (simp add: sendComplete_def sendNumbered_def send_def)
qed

lemma example_chunks_arrive:
  "isComplete (addChunk [] ''pic'' 0 [1, 2] 3 1070) ''pic'' = False"
  "isComplete (addChunk (addChunk [] ''pic'' 0 [1, 2] 3 1070) ''pic'' 1 [3, 4] 3 1080) ''pic'' = False"
  "isComplete (addChunk (addChunk (addChunk [] ''pic'' 0 [1, 2] 3 1070) ''pic'' 1 [3, 4] 3 1080)
                 ''pic'' 2 [5] 3 1090) ''pic'' = True"
  "assemble (addChunk (addChunk (addChunk [] ''pic'' 0 [1, 2] 3 1070) ''pic'' 1 [3, 4] 3 1080)
                 ''pic'' 2 [5] 3 1090) ''pic'' = (Assembled [1, 2, 3, 4, 5], [])"
proof -
  have three: "[0 ..< 3] = [0, 1, 2 :: nat]" by (simp add: upt_rec)
  show "isComplete (addChunk [] ''pic'' 0 [1, 2] 3 1070) ''pic'' = False"
    by (simp add: addChunk_def isComplete_def dalist_eval)
  show "isComplete (addChunk (addChunk [] ''pic'' 0 [1, 2] 3 1070) ''pic'' 1 [3, 4] 3 1080) ''pic'' = False"
    by (simp add: addChunk_def isComplete_def dalist_eval)
  show c: "isComplete (addChunk (addChunk (addChunk [] ''pic'' 0 [1, 2] 3 1070) ''pic'' 1 [3, 4] 3 1080)
                 ''pic'' 2 [5] 3 1090) ''pic'' = True"
    by (simp add: addChunk_def isComplete_def dalist_eval)
  show "assemble (addChunk (addChunk (addChunk [] ''pic'' 0 [1, 2] 3 1070) ''pic'' 1 [3, 4] 3 1080)
                 ''pic'' 2 [5] 3 1090) ''pic'' = (Assembled [1, 2, 3, 4, 5], [])"
    by (simp add: addChunk_def assemble_def isComplete_def dalist_eval totalSize_of_def three)
qed

lemma example_race_run:
  "run alwaysRenders
     (startLoop [PROGRESS processing_images 1 1 0, TOKENS ''tok'' 1,
               NODES [frameNode ''box'',
                 (imageNode ''pic'' ''big'')
                 \<lparr>imageSource := Some \<lparr>originalUrl = ''big'', resolvedUrl = ''big''\<rparr>,
                   imageChunkRef := Some \<lparr>totalSize = 5, ref_totalChunks = Num 3, chunkSize = 2,
                      isStreamed = True\<rparr>,
                   imageBuffer := Some [1, 2, 3, 4, 5],
                   imageProcessing := Some \<lparr>ip_originalFormat = ''png'',
                      ip_convertedFormat = Some ''png'', wasConverted = False,
                      processingError = None\<rparr>\<rparr>] 2,
               IMAGE_CHUNK ''pic'' 0 3 [1, 2] 3 1003, IMAGE_CHUNK ''pic'' 1 3 [3, 4] 4 1004,
               IMAGE_CHUNK ''pic'' 2 3 [5] 5 1005, PROGRESS streaming_images 1 1 6,
               COMPLETE 2 1 0 1 7])
     [Deliver 1000 1000, Deliver 1010 1010, Deliver 1020 1020, Deliver 1070 1070,
      Deliver 1080 1080, Deliver 1090 1090, Deliver 1095 1095, Deliver 1100 1100,
      Resume 0 1400 1400]
   = \<lparr>globals =
        \<lparr>imageAssembler =
           addChunk (addChunk (addChunk [] ''pic'' 0 [1, 2] 3 1070) ''pic'' 1 [3, 4] 3 1080)
             ''pic'' 2 [5] 3 1090,
         pendingImageNodes = [(''pic'', (imageNode ''pic'' ''big'')
                 \<lparr>imageSource := Some \<lparr>originalUrl = ''big'', resolvedUrl = ''big''\<rparr>,
                   imageChunkRef := Some \<lparr>totalSize = 5, ref_totalChunks = Num 3, chunkSize = 2,
                      isStreamed = True\<rparr>,
                   imageBuffer := Some [1, 2, 3, 4, 5],
                   imageProcessing := Some \<lparr>ip_originalFormat = ''png'',
                      ip_convertedFormat = Some ''png'', wasConverted = False,
                      processingError = None\<rparr>\<rparr>)],
         streamCreatedNodes = [(''box'', Rendered (frameNode ''box''))],
         totalStreamNodesProcessed = 1\<rparr>,
      suspended = [], inbox = []\<rparr>"
proof -
  let ?pic = "(imageNode ''pic'' ''big'')
                 \<lparr>imageSource := Some \<lparr>originalUrl = ''big'', resolvedUrl = ''big''\<rparr>,
                   imageChunkRef := Some \<lparr>totalSize = 5, ref_totalChunks = Num 3, chunkSize = 2,
                      isStreamed = True\<rparr>,
                   imageBuffer := Some [1, 2, 3, 4, 5],
                   imageProcessing := Some \<lparr>ip_originalFormat = ''png'',
                      ip_convertedFormat = Some ''png'', wasConverted = False,
                      processingError = None\<rparr>\<rparr>"
  let ?box = "frameNode ''box''"
  let ?m1 = "PROGRESS processing_images 1 1 0"
  let ?m2 = "TOKENS ''tok'' 1"
  let ?m3 = "NODES [?box, ?pic] 2"
  let ?m4 = "IMAGE_CHUNK ''pic'' 0 3 [1, 2] 3 1003"
  let ?m5 = "IMAGE_CHUNK ''pic'' 1 3 [3, 4] 4 1004"
  let ?m6 = "IMAGE_CHUNK ''pic'' 2 3 [5] 5 1005"
  let ?m7 = "PROGRESS streaming_images 1 1 6"
  let ?m8 = "COMPLETE 2 1 0 1 7"
  let ?a1 = "addChunk [] ''pic'' 0 [1, 2] 3 1070"
  let ?a2 = "addChunk ?a1 ''pic'' 1 [3, 4] 3 1080"
  let ?a3 = "addChunk ?a2 ''pic'' 2 [5] 3 1090"
  let ?K = "\<lambda>asm. \<lparr>imageAssembler = asm, pendingImageNodes = [], streamCreatedNodes = [],
                   totalStreamNodesProcessed = 0\<rparr>"
  let ?w = "[NodesAwait ?box [?pic]]"
  let ?S = "\<lambda>c ts msgs. \<lparr>globals = c, suspended = ts, inbox = msgs\<rparr>"
  have t1: "step alwaysRenders (startLoop [?m1, ?m2, ?m3, ?m4, ?m5, ?m6, ?m7, ?m8]) (Deliver 1000 1000)
      = ?S (?K []) [] [?m2, ?m3, ?m4, ?m5, ?m6, ?m7, ?m8]"
    by (simp add: startLoop_def newConsumer_def onmessage_def settle_def)
  have t2: "step alwaysRenders (?S (?K []) [] [?m2, ?m3, ?m4, ?m5, ?m6, ?m7, ?m8]) (Deliver 1010 1010)
      = ?S (?K []) [] [?m3, ?m4, ?m5, ?m6, ?m7, ?m8]"
    by (simp add: onmessage_def settle_def resetStreamState_def)
  have t3: "step alwaysRenders (?S (?K []) [] [?m3, ?m4, ?m5, ?m6, ?m7, ?m8]) (Deliver 1020 1020)
      = ?S (?K []) ?w [?m4, ?m5, ?m6, ?m7, ?m8]"
    by (simp add: onmessage_def settle_def isStreamedNode_def frameNode_def)
  have t4: "step alwaysRenders (?S (?K []) ?w [?m4, ?m5, ?m6, ?m7, ?m8]) (Deliver 1070 1070)
      = ?S (?K ?a1) ?w [?m5, ?m6, ?m7, ?m8]"
    by (simp add: onmessage_def settle_def handleImageChunk_def Let_def example_chunks_arrive
        del: One_nat_def)
  have t5: "step alwaysRenders (?S (?K ?a1) ?w [?m5, ?m6, ?m7, ?m8]) (Deliver 1080 1080)
      = ?S (?K ?a2) ?w [?m6, ?m7, ?m8]"
    by (simp add: onmessage_def settle_def handleImageChunk_def Let_def example_chunks_arrive
        del: One_nat_def)
  have t6: "step alwaysRenders (?S (?K ?a2) ?w [?m6, ?m7, ?m8]) (Deliver 1090 1090)
      = ?S (?K ?a3) ?w [?m7, ?m8]"
    by (simp add: onmessage_def settle_def handleImageChunk_def Let_def example_chunks_arrive
        createPendingImageNode_def del: One_nat_def)
  have t7: "step alwaysRenders (?S (?K ?a3) ?w [?m7, ?m8]) (Deliver 1095 1095)
      = ?S (?K ?a3) ?w [?m8]"
    by (simp add: onmessage_def settle_def)
  have t8: "step alwaysRenders (?S (?K ?a3) ?w [?m8]) (Deliver 1100 1100)
      = ?S (?K ?a3) ?w []"
    by (simp add: onmessage_def settle_def handleStreamComplete_def pollPending_def
        forcePlaceholders_def)
  have t9: "step alwaysRenders (?S (?K ?a3) ?w []) (Resume 0 1400 1400)
      = ?S \<lparr>imageAssembler = ?a3, pendingImageNodes = [(''pic'', ?pic)],
             streamCreatedNodes = [(''box'', Rendered ?box)], totalStreamNodesProcessed = 1\<rparr> [] []"
    by (simp add: resume_def resumeNodeBatch_def settle_def recordCreated_def
        createEnhancedNode_def alwaysRenders_def isStreamedNode_def frameNode_def imageNode_def)
  show ?thesis
    unfolding run_def by (simp only: foldl.simps t1 t2 t3 t4 t5 t6 t7 t8 t9)
qed

lemma example_ordered_run:
  "run alwaysRenders
     (startLoop [PROGRESS processing_images 1 1 0, TOKENS ''tok'' 1,
               NODES [frameNode ''box'',
                 (imageNode ''pic'' ''big'')
                 \<lparr>imageSource := Some \<lparr>originalUrl = ''big'', resolvedUrl = ''big''\<rparr>,
                   imageChunkRef := Some \<lparr>totalSize = 5, ref_totalChunks = Num 3, chunkSize = 2,
                      isStreamed = True\<rparr>,
                   imageBuffer := Some [1, 2, 3, 4, 5],
                   imageProcessing := Some \<lparr>ip_originalFormat = ''png'',
                      ip_convertedFormat = Some ''png'', wasConverted = False,
                      processingError = None\<rparr>\<rparr>] 2,
               IMAGE_CHUNK ''pic'' 0 3 [1, 2] 3 1003, IMAGE_CHUNK ''pic'' 1 3 [3, 4] 4 1004,
               IMAGE_CHUNK ''pic'' 2 3 [5] 5 1005, PROGRESS streaming_images 1 1 6,
               COMPLETE 2 1 0 1 7])
     [Deliver 1000 1000, Deliver 1010 1010, Deliver 1020 1020, Resume 0 1060 1060,
      Deliver 1070 1070, Deliver 1080 1080, Deliver 1090 1090, Deliver 1095 1095,
      Deliver 1100 1100, Resume 0 1150 1150, Resume 0 1200 1200]
   = \<lparr>globals =
        \<lparr>imageAssembler = [], pendingImageNodes = [],
         streamCreatedNodes =
           [(''box'', Rendered (frameNode ''box'')),
            (''pic'', Rendered ((imageNode ''pic'' ''big'')
                 \<lparr>imageSource := Some \<lparr>originalUrl = ''big'', resolvedUrl = ''big''\<rparr>,
                   imageBuffer := Some [1, 2, 3, 4, 5],
                   imageData := Some [1, 2, 3, 4, 5],
                   imageProcessing := Some \<lparr>ip_originalFormat = ''png'',
                      ip_convertedFormat = Some ''png'', wasConverted = False,
                      processingError = None\<rparr>\<rparr>))],
         totalStreamNodesProcessed = 2\<rparr>,
      suspended = [], inbox = []\<rparr>"
proof -
  let ?pic = "(imageNode ''pic'' ''big'')
                 \<lparr>imageSource := Some \<lparr>originalUrl = ''big'', resolvedUrl = ''big''\<rparr>,
                   imageChunkRef := Some \<lparr>totalSize = 5, ref_totalChunks = Num 3, chunkSize = 2,
                      isStreamed = True\<rparr>,
                   imageBuffer := Some [1, 2, 3, 4, 5],
                   imageProcessing := Some \<lparr>ip_originalFormat = ''png'',
                      ip_convertedFormat = Some ''png'', wasConverted = False,
                      processingError = None\<rparr>\<rparr>"
  let ?pic1 = "(imageNode ''pic'' ''big'')
                 \<lparr>imageSource := Some \<lparr>originalUrl = ''big'', resolvedUrl = ''big''\<rparr>,
                   imageBuffer := Some [1, 2, 3, 4, 5],
                   imageData := Some [1, 2, 3, 4, 5],
                   imageProcessing := Some \<lparr>ip_originalFormat = ''png'',
                      ip_convertedFormat = Some ''png'', wasConverted = False,
                      processingError = None\<rparr>\<rparr>"
  let ?box = "frameNode ''box''"
  let ?m1 = "PROGRESS processing_images 1 1 0"
  let ?m2 = "TOKENS ''tok'' 1"
  let ?m3 = "NODES [?box, ?pic] 2"
  let ?m4 = "IMAGE_CHUNK ''pic'' 0 3 [1, 2] 3 1003"
  let ?m5 = "IMAGE_CHUNK ''pic'' 1 3 [3, 4] 4 1004"
  let ?m6 = "IMAGE_CHUNK ''pic'' 2 3 [5] 5 1005"
  let ?m7 = "PROGRESS streaming_images 1 1 6"
  let ?m8 = "COMPLETE 2 1 0 1 7"
  let ?a1 = "addChunk [] ''pic'' 0 [1, 2] 3 1070"
  let ?a2 = "addChunk ?a1 ''pic'' 1 [3, 4] 3 1080"
  let ?init = "\<lparr>imageAssembler = [], pendingImageNodes = [], streamCreatedNodes = [],
                   totalStreamNodesProcessed = 0\<rparr>"
  let ?K = "\<lambda>asm p. \<lparr>imageAssembler = asm, pendingImageNodes = [(''pic'', p)],
                   streamCreatedNodes = [(''box'', Rendered ?box)],
                   totalStreamNodesProcessed = 1\<rparr>"
  let ?Kend = "\<lparr>imageAssembler = [], pendingImageNodes = [],
                   streamCreatedNodes = [(''box'', Rendered ?box), (''pic'', Rendered ?pic1)],
                   totalStreamNodesProcessed = 2\<rparr>"
  let ?S = "\<lambda>c ts msgs. \<lparr>globals = c, suspended = ts, inbox = msgs\<rparr>"
  have t1: "step alwaysRenders (startLoop [?m1, ?m2, ?m3, ?m4, ?m5, ?m6, ?m7, ?m8]) (Deliver 1000 1000)
      = ?S ?init [] [?m2, ?m3, ?m4, ?m5, ?m6, ?m7, ?m8]"
    by (simp add: startLoop_def newConsumer_def onmessage_def settle_def)
  have t2: "step alwaysRenders (?S ?init [] [?m2, ?m3, ?m4, ?m5, ?m6, ?m7, ?m8]) (Deliver 1010 1010)
      = ?S ?init [] [?m3, ?m4, ?m5, ?m6, ?m7, ?m8]"
    by (simp add: onmessage_def settle_def resetStreamState_def)
  have t3: "step alwaysRenders (?S ?init [] [?m3, ?m4, ?m5, ?m6, ?m7, ?m8]) (Deliver 1020 1020)
      = ?S ?init [NodesAwait ?box [?pic]] [?m4, ?m5, ?m6, ?m7, ?m8]"
    by (simp add: onmessage_def settle_def isStreamedNode_def frameNode_def)
  have t4: "step alwaysRenders (?S ?init [NodesAwait ?box [?pic]] [?m4, ?m5, ?m6, ?m7, ?m8])
        (Resume 0 1060 1060)
      = ?S (?K [] ?pic) [] [?m4, ?m5, ?m6, ?m7, ?m8]"
    by (simp add: resume_def resumeNodeBatch_def settle_def recordCreated_def
        createEnhancedNode_def alwaysRenders_def isStreamedNode_def frameNode_def imageNode_def)
  have t5: "step alwaysRenders (?S (?K [] ?pic) [] [?m4, ?m5, ?m6, ?m7, ?m8]) (Deliver 1070 1070)
      = ?S (?K ?a1 ?pic) [] [?m5, ?m6, ?m7, ?m8]"
    by (simp add: onmessage_def settle_def handleImageChunk_def Let_def example_chunks_arrive
        del: One_nat_def)
  have t6: "step alwaysRenders (?S (?K ?a1 ?pic) [] [?m5, ?m6, ?m7, ?m8]) (Deliver 1080 1080)
      = ?S (?K ?a2 ?pic) [] [?m6, ?m7, ?m8]"
    by (simp add: onmessage_def settle_def handleImageChunk_def Let_def example_chunks_arrive
        del: One_nat_def)
  have t7: "step alwaysRenders (?S (?K ?a2 ?pic) [] [?m6, ?m7, ?m8]) (Deliver 1090 1090)
      = ?S (?K [] ?pic1) [ImageAwait ''pic'' ?pic1] [?m7, ?m8]"
    by (simp add: onmessage_def settle_def handleImageChunk_def Let_def example_chunks_arrive
        createPendingImageNode_def imageNode_def del: One_nat_def)
  have t8: "step alwaysRenders (?S (?K [] ?pic1) [ImageAwait ''pic'' ?pic1] [?m7, ?m8])
        (Deliver 1095 1095)
      = ?S (?K [] ?pic1) [ImageAwait ''pic'' ?pic1] [?m8]"
    by (simp add: onmessage_def settle_def)
  have t9: "step alwaysRenders (?S (?K [] ?pic1) [ImageAwait ''pic'' ?pic1] [?m8])
        (Deliver 1100 1100)
      = ?S (?K [] ?pic1) [ImageAwait ''pic'' ?pic1, CompleteWait 1100] []"
    by (simp add: onmessage_def settle_def handleStreamComplete_def pollPending_def
        STREAM_ASSEMBLY_TIMEOUT_MS_def)
  have t10: "step alwaysRenders (?S (?K [] ?pic1) [ImageAwait ''pic'' ?pic1, CompleteWait 1100] [])
        (Resume 0 1150 1150)
      = ?S ?Kend [CompleteWait 1100] []"
    by (simp add: resume_def resumePendingImageNode_def settle_def recordCreated_def
        createEnhancedNode_def alwaysRenders_def imageNode_def Let_def)
  have t11: "step alwaysRenders (?S ?Kend [CompleteWait 1100] []) (Resume 0 1200 1200)
      = ?S ?Kend [] []"
    by (simp add: resume_def resumeComplete_def settle_def sweep_def cleanupTimedOut_def
        pollPending_def forcePlaceholders_def)
  show ?thesis
    unfolding run_def by (simp only: foldl.simps t1 t2 t3 t4 t5 t6 t7 t8 t9 t10 t11)
qed

text \<open>
  Claim C1 says that after the consumer has handled \<open>COMPLETE\<close> the pending table is
  empty, every item delivered in \<open>NODES\<close> being rendered, replaced by a placeholder or
  skipped. The handlers are not serialised, and \<open>handleStreamComplete\<close> looks at the
  pending table only while it runs. Take the example session with a frame item and a
  chunked image item, and let the messages arrive while the handler of the \<open>NODES\<close>
  batch waits in \<open>await createEnhancedNode\<close> for the frame item. The chunks find no
  pending item; \<open>COMPLETE\<close> finds the pending table empty and its handler ends; the
  handler of the batch, resumed after that, puts the image item into the pending table.
  There it stays: no message is left, no handler waits, all chunks of the item have
  arrived, and the item is neither rendered nor replaced by a placeholder. When the
  handler of the batch is resumed before the chunks arrive, the same messages leave
  nothing pending and the item rendered.
\<close>

theorem complete_overtakes_node_batch:
  "map_option (\<lambda>el. (finished el, map fst (pendingImageNodes (globals el)),
                      map fst (streamCreatedNodes (globals el)),
                      isComplete (imageAssembler (globals el)) ''pic''))
     (endToEnd exampleFetch exampleConfig exampleClock alwaysRenders
        \<lparr>nodes = [frameNode ''box'', imageNode ''pic'' ''big''], fonts = [], tokens = Some ''tok''\<rparr>
        [Deliver 1000 1000, Deliver 1010 1010, Deliver 1020 1020, Deliver 1070 1070,
         Deliver 1080 1080, Deliver 1090 1090, Deliver 1095 1095, Deliver 1100 1100,
         Resume 0 1400 1400])
     = Some (True, [''pic''], [''box''], True)
   \<and> map_option (\<lambda>el. (finished el, map fst (pendingImageNodes (globals el)),
                      map fst (streamCreatedNodes (globals el)),
                      isComplete (imageAssembler (globals el)) ''pic''))
     (endToEnd exampleFetch exampleConfig exampleClock alwaysRenders
        \<lparr>nodes = [frameNode ''box'', imageNode ''pic'' ''big''], fonts = [], tokens = Some ''tok''\<rparr>
        [Deliver 1000 1000, Deliver 1010 1010, Deliver 1020 1020, Resume 0 1060 1060,
         Deliver 1070 1070, Deliver 1080 1080, Deliver 1090 1090, Deliver 1095 1095,
         Deliver 1100 1100, Resume 0 1150 1150, Resume 0 1200 1200])
     = Some (True, [], [''box'', ''pic''], False)"
proof -
  have none: "isComplete [] ''pic'' = False" by (simp add: isComplete_def)
  show ?thesis
    unfolding endToEnd_def example_race_session option.case StreamController.select_convs
      example_race_run example_ordered_run
    by (simp add: finished_def example_chunks_arrive none del: One_nat_def)
qed

end
